theory Spec2Isabelle
  imports Main "HOL-Library.AList"
begin

section \<open>Request client: classified errors (utils/api-utils.js)\<close>

text \<open>
  \<^verbatim>\<open>ERROR_TYPES\<close>: the kinds an \<^verbatim>\<open>ApiError\<close> is tagged with.
\<close>

datatype error_type =
  NETWORK | TIMEOUT | RATE_LIMIT | AUTH | PERMISSION | NOT_FOUND | BAD_REQUEST | SERVER | UNKNOWN

text \<open>
  A value thrown by the platform (the rejection of \<^verbatim>\<open>fetch\<close>, of \<^verbatim>\<open>response.json()\<close>
  or of \<^verbatim>\<open>response.text()\<close>): only its \<^verbatim>\<open>name\<close> and \<^verbatim>\<open>message\<close> are read by the code.
\<close>

record js_exn =
  exn_name :: string
  exn_message :: string

text \<open>Parsed JSON data is opaque to the request client; it is kept as its text.\<close>

type_synonym json = string

datatype details_payload = EmptyDetails | ParsedJson json | ResponseText string

record api_error =
  err_message :: string
  err_type :: error_type
  err_details :: details_payload
  err_url :: "string option"
  err_status :: "int option"
  err_original :: "js_exn option"












section \<open>Request client: the retrying executor\<close>







section \<open>Request client: cache keys\<close>

text \<open>
  The JavaScript values a caller can pass as \<^verbatim>\<open>body\<close> or \<^verbatim>\<open>headers\<close>, with their
  truthiness (what \<^verbatim>\<open>options.body || ''\<close> tests).
\<close>

datatype js_value =
  JUndefined | JNull | JBool bool | JNum int | JStr string
  | JArray "js_value list" | JObject "(string \<times> js_value) list"

fun truthy :: "js_value \<Rightarrow> bool" where
  "truthy JUndefined = False"
| "truthy JNull = False"
| "truthy (JBool b) = b"
| "truthy (JNum n) = (n \<noteq> 0)"
| "truthy (JStr s) = (s \<noteq> [])"
| "truthy (JArray xs) = True"
| "truthy (JObject kvs) = True"

record cache_options =
  co_method :: "string option"
  co_body :: js_value
  co_headers :: js_value

text \<open>\<^verbatim>\<open>options.method || 'GET'\<close>: a missing or empty method is \<^verbatim>\<open>GET\<close>.\<close>

definition method_of :: "cache_options \<Rightarrow> string" where
  "method_of options =
     (case co_method options of None \<Rightarrow> ''GET'' | Some m \<Rightarrow> if m = [] then ''GET'' else m)"

text \<open>
  The serialization of the body that the key folds in: \<^verbatim>\<open>options.body || ''\<close>, then the
  string itself or \<^verbatim>\<open>JSON.stringify\<close> of it. \<^verbatim>\<open>JSON.stringify\<close> is the platform's; it is
  a parameter of the model (with the string conversion of the template literal).
\<close>

definition bodyStr :: "(js_value \<Rightarrow> string) \<Rightarrow> js_value \<Rightarrow> string" where
  "bodyStr stringify b =
     (let body = (if truthy b then b else JStr [])
      in case body of JStr s \<Rightarrow> s | _ \<Rightarrow> stringify body)"

definition headerStr :: "(js_value \<Rightarrow> string) \<Rightarrow> js_value \<Rightarrow> string" where
  "headerStr stringify h = stringify (if truthy h then h else JObject [])"

text \<open>\<^verbatim>\<open>apiRequest.createCacheKey\<close>.\<close>

definition createCacheKey :: "(js_value \<Rightarrow> string) \<Rightarrow> string \<Rightarrow> cache_options \<Rightarrow> string" where
  "createCacheKey stringify url options =
     (if method_of options = ''GET'' then method_of options @ '':'' @ url
      else method_of options @ '':'' @ url @ '':'' @ headerStr stringify (co_headers options)
             @ '':'' @ bodyStr stringify (co_body options))"

text \<open>The option objects \<^verbatim>\<open>{method:'POST', body:B}\<close> and \<^verbatim>\<open>{method:'GET'}\<close>.\<close>

definition post_options :: "js_value \<Rightarrow> cache_options" where
  "post_options B = \<lparr>co_method = Some ''POST'', co_body = B, co_headers = JUndefined\<rparr>"

definition get_options :: cache_options where
  "get_options = \<lparr>co_method = Some ''GET'', co_body = JUndefined, co_headers = JUndefined\<rparr>"

text \<open>
  The serialization of a body, as \<^verbatim>\<open>request\<close> sends one: a string goes out as it is,
  an object through \<^verbatim>\<open>JSON.stringify\<close>; a number or \<^verbatim>\<open>true\<close>, handed to \<^verbatim>\<open>fetch\<close> as
  it is, goes out as the same text that \<^verbatim>\<open>JSON.stringify\<close> gives.
\<close>

definition serialization :: "(js_value \<Rightarrow> string) \<Rightarrow> js_value \<Rightarrow> string" where
  "serialization stringify b = (case b of JStr s \<Rightarrow> s | _ \<Rightarrow> stringify b)"

text \<open>
  \<^verbatim>\<open>JSON.stringify\<close> on these values, for the examples: numbers are integers (of a size
  that JavaScript prints in decimal), a string is quoted with the escapes of the
  standard, an array prints \<^verbatim>\<open>null\<close> for an element that has no JSON text, an object
  leaves such a property out. The properties of an object are listed in the order
  \<^verbatim>\<open>JSON.stringify\<close> visits them. Outside a container \<^verbatim>\<open>undefined\<close> has no JSON text, and
  the template literal prints it as \<^verbatim>\<open>undefined\<close>.
\<close>

fun decimal :: "nat \<Rightarrow> string" where
  "decimal n =
     (if n < 10 then [char_of (48 + n)] else decimal (n div 10) @ [char_of (48 + n mod 10)])"

definition number_text :: "int \<Rightarrow> string" where
  "number_text i = (if i < 0 then CHR ''-'' # decimal (nat (- i)) else decimal (nat i))"

definition hex_digit :: "nat \<Rightarrow> char" where
  "hex_digit n = (if n < 10 then char_of (48 + n) else char_of (87 + n))"

definition quote_char :: "char \<Rightarrow> string" where
  "quote_char c =
     (if c = CHR 0x22 then [CHR 0x5C, CHR 0x22]
      else if c = CHR 0x5C then [CHR 0x5C, CHR 0x5C]
      else if c = CHR 0x08 then [CHR 0x5C, CHR ''b'']
      else if c = CHR 0x0C then [CHR 0x5C, CHR ''f'']
      else if c = CHR 0x0A then [CHR 0x5C, CHR ''n'']
      else if c = CHR 0x0D then [CHR 0x5C, CHR ''r'']
      else if c = CHR 0x09 then [CHR 0x5C, CHR ''t'']
      else if (of_char c :: nat) < 32
      then [CHR 0x5C, CHR ''u'', CHR ''0'', CHR ''0'',
            hex_digit (of_char c div 16), hex_digit (of_char c mod 16)]
      else [c])"

definition quote :: "string \<Rightarrow> string" where
  "quote s = CHR 0x22 # concat (map quote_char s) @ [CHR 0x22]"

fun commas :: "string list \<Rightarrow> string" where
  "commas [] = []"
| "commas [t] = t"
| "commas (t # ts) = t @ CHR '','' # commas ts"

primrec json_text :: "js_value \<Rightarrow> string option" where
  "json_text JUndefined = None"
| "json_text JNull = Some ''null''"
| "json_text (JBool b) = Some (if b then ''true'' else ''false'')"
| "json_text (JNum n) = Some (number_text n)"
| "json_text (JStr s) = Some (quote s)"
| "json_text (JArray xs) =
     Some (CHR ''['' # commas (map (\<lambda>t. case t of None \<Rightarrow> ''null'' | Some x \<Rightarrow> x)
                                (map json_text xs)) @ '']'')"
| "json_text (JObject kvs) =
     Some (CHR ''{'' # commas (concat (map (\<lambda>(k, t). case t of None \<Rightarrow> []
                                                      | Some x \<Rightarrow> [quote k @ '':'' @ x])
                                      (map (map_prod id json_text) kvs))) @ ''}'')"

definition json_stringify :: "js_value \<Rightarrow> string" where
  "json_stringify v = (case json_text v of None \<Rightarrow> ''undefined'' | Some t \<Rightarrow> t)"

section \<open>Rate limiter (utils/api-utils.js)\<close>

text \<open>
  The state of one resource. A queued descriptor holds the thunk with the callbacks of
  its promise (here the number of the request) and the time it was queued.
\<close>

record queued =
  q_request :: nat
  q_timestamp :: int

record limiter_state =
  requestsPerMinute :: int
  concurrentRequests :: int
  activeRequests :: int
  requestHistory :: "int list"
  queue :: "queued list"
  queueProcessing :: bool

record rate_options =
  opt_requestsPerMinute :: "int option"
  opt_concurrentRequests :: "int option"

definition no_options :: rate_options where
  "no_options = \<lparr>opt_requestsPerMinute = None, opt_concurrentRequests = None\<rparr>"

text \<open>\<^verbatim>\<open>rateLimiter._state\<close>, keyed by the resource id.\<close>

type_synonym limiter = "string \<rightharpoonup> limiter_state"

text \<open>\<^verbatim>\<open>value || dflt\<close> on an optional number: a missing value and \<open>0\<close> are falsy.\<close>

definition or_default :: "int option \<Rightarrow> int \<Rightarrow> int" where
  "or_default v dflt = (case v of None \<Rightarrow> dflt | Some n \<Rightarrow> if n = 0 then dflt else n)"

text \<open>
  \<^verbatim>\<open>rateLimiter.init\<close>: creates the state of a resource on first use, with the defaults
  of \<^verbatim>\<open>DEFAULT_CONFIG.rateLimit\<close>, and returns the state of the resource.
\<close>

definition init :: "string \<Rightarrow> rate_options \<Rightarrow> limiter \<Rightarrow> limiter_state \<times> limiter" where
  "init apiId options st =
     (case st apiId of
        Some s \<Rightarrow> (s, st)
      | None \<Rightarrow>
          (let s = \<lparr>requestsPerMinute = or_default (opt_requestsPerMinute options) 60,
                    concurrentRequests = or_default (opt_concurrentRequests options) 6,
                    activeRequests = 0, requestHistory = [], queue = [],
                    queueProcessing = False\<rparr>
           in (s, st(apiId \<mapsto> s))))"

text \<open>
  \<^verbatim>\<open>rateLimiter.checkLimit\<close>; \<open>now\<close> is \<^verbatim>\<open>Date.now()\<close>. The history is pruned only
  when the concurrency test passes.
\<close>

definition checkLimit :: "string \<Rightarrow> int \<Rightarrow> limiter \<Rightarrow> bool \<times> limiter" where
  "checkLimit apiId now st =
     (let (state, st0) = init apiId no_options st
      in if activeRequests state \<ge> concurrentRequests state then (False, st0)
         else (let state' = state\<lparr>requestHistory :=
                              filter (\<lambda>time. time > now - 60000) (requestHistory state)\<rparr>
               in (int (length (requestHistory state')) < requestsPerMinute state',
                   st0(apiId \<mapsto> state'))))"

text \<open>\<^verbatim>\<open>rateLimiter.recordRequest\<close>.\<close>

definition recordRequest :: "string \<Rightarrow> int \<Rightarrow> limiter \<Rightarrow> limiter" where
  "recordRequest apiId now st =
     (let (state, st0) = init apiId no_options st
      in st0(apiId \<mapsto> state\<lparr>requestHistory := requestHistory state @ [now],
                              activeRequests := activeRequests state + 1\<rparr>))"

text \<open>
  \<^verbatim>\<open>processNext\<close>, the closure of \<^verbatim>\<open>_processQueue\<close>, up to the point where it returns:
  the queue is empty, or the head was admitted and its thunk started, or a timer of
  500 ms was set to call \<^verbatim>\<open>processNext\<close> again.
\<close>

datatype drain_result = QueueEmpty | Started nat | TimerSet

definition processNext :: "string \<Rightarrow> int \<Rightarrow> limiter \<Rightarrow> drain_result \<times> limiter" where
  "processNext apiId now st =
     (let (state, st0) = init apiId no_options st
      in case queue state of
           [] \<Rightarrow> (QueueEmpty, st0(apiId \<mapsto> state\<lparr>queueProcessing := False\<rparr>))
         | item # rest \<Rightarrow>
             (let (allowed, st1) = checkLimit apiId now st0
              in if allowed
                 then (let (state1, st2) = init apiId no_options st1
                       in (Started (q_request item),
                           recordRequest apiId now (st2(apiId \<mapsto> state1\<lparr>queue := rest\<rparr>)))
                      )
                 else (TimerSet, st1)))"

text \<open>\<^verbatim>\<open>rateLimiter._processQueue\<close>.\<close>

definition processQueue :: "string \<Rightarrow> int \<Rightarrow> limiter \<Rightarrow> drain_result \<times> limiter" where
  "processQueue apiId now st =
     (let (state, st0) = init apiId no_options st
      in if queueProcessing state \<or> queue state = [] then (QueueEmpty, st0)
         else processNext apiId now (st0(apiId \<mapsto> state\<lparr>queueProcessing := True\<rparr>)))"

text \<open>\<^verbatim>\<open>rateLimiter.recordCompletion\<close>: the count is floored at zero, then the queue is drained.\<close>

definition recordCompletion :: "string \<Rightarrow> int \<Rightarrow> limiter \<Rightarrow> drain_result \<times> limiter" where
  "recordCompletion apiId now st =
     (let (state, st0) = init apiId no_options st
      in processQueue apiId now
           (st0(apiId \<mapsto> state\<lparr>activeRequests := max 0 (activeRequests state - 1)\<rparr>)))"

text \<open>\<^verbatim>\<open>rateLimiter.enqueue\<close>.\<close>

definition enqueue :: "string \<Rightarrow> nat \<Rightarrow> int \<Rightarrow> limiter \<Rightarrow> drain_result \<times> limiter" where
  "enqueue apiId req now st =
     (let (state, st0) = init apiId no_options st;
          state' = state\<lparr>queue := queue state @ [\<lparr>q_request = req, q_timestamp = now\<rparr>]\<rparr>;
          st1 = st0(apiId \<mapsto> state')
      in if \<not> queueProcessing state' then processQueue apiId now st1 else (QueueEmpty, st1))"

text \<open>
  The admission path at the end of \<^verbatim>\<open>apiRequest.request\<close>: the request is admitted and
  recorded in one synchronous step when \<^verbatim>\<open>checkLimit\<close> passes, and queued otherwise.
\<close>

definition request_admission :: "string \<Rightarrow> nat \<Rightarrow> int \<Rightarrow> limiter \<Rightarrow> drain_result \<times> limiter" where
  "request_admission apiId req now st =
     (let (allowed, st1) = checkLimit apiId now st
      in if allowed then (Started req, recordRequest apiId now st1)
         else enqueue apiId req now st1)"

text \<open>
  What can happen to the limiter, in any order: a configuration (\<^verbatim>\<open>init\<close> with
  options), a bare \<^verbatim>\<open>checkLimit\<close> (the availability check of the API manager), a new
  request reaching the admission path, the completion of a request that was admitted
  directly (\<^verbatim>\<open>recordCompletion\<close>), the completion of a request started from the queue
  (\<^verbatim>\<open>recordCompletion\<close>, then \<^verbatim>\<open>processNext\<close>), and the polling timer (\<^verbatim>\<open>processNext\<close>).
  Each carries the resource id and the clock reading.
\<close>

datatype limiter_event =
    Configure string rate_options
  | Check string int
  | NewRequest string nat int
  | DirectDone string int
  | QueuedDone string int
  | TimerFired string int

fun limiter_step :: "limiter_event \<Rightarrow> limiter \<Rightarrow> limiter" where
  "limiter_step (Configure apiId options) st = snd (init apiId options st)"
| "limiter_step (Check apiId now) st = snd (checkLimit apiId now st)"
| "limiter_step (NewRequest apiId req now) st = snd (request_admission apiId req now st)"
| "limiter_step (DirectDone apiId now) st = snd (recordCompletion apiId now st)"
| "limiter_step (QueuedDone apiId now) st =
     snd (processNext apiId now (snd (recordCompletion apiId now st)))"
| "limiter_step (TimerFired apiId now) st = snd (processNext apiId now st)"

definition limiter_run :: "limiter_event list \<Rightarrow> limiter \<Rightarrow> limiter" where
  "limiter_run evs st = fold limiter_step evs st"

text \<open>A configuration whose concurrency ceiling, when given, is not negative.\<close>

fun ceiling_ok :: "limiter_event \<Rightarrow> bool" where
  "ceiling_ok (Configure apiId options) =
     (case opt_concurrentRequests options of None \<Rightarrow> True | Some c \<Rightarrow> 0 \<le> c)"
| "ceiling_ok _ = True"

text \<open>The invariant: every resource that has a state is within its concurrency ceiling.\<close>

definition within_ceiling :: "limiter \<Rightarrow> bool" where
  "within_ceiling st =
     (\<forall>apiId s. st apiId = Some s \<longrightarrow>
        0 \<le> activeRequests s \<and> activeRequests s \<le> concurrentRequests s)"

section \<open>API manager: usage statistics (background/api-manager.js)\<close>

datatype auth_type = AuthNone | AuthApiKey | AuthOAuth

record api_config =
  cfg_name :: string
  cfg_authType :: auth_type
  cfg_requestsPerMinute :: int
  cfg_concurrentRequests :: int

text \<open>\<^verbatim>\<open>API_CONFIG\<close>: the known services.\<close>

definition API_CONFIG :: "string \<rightharpoonup> api_config" where
  "API_CONFIG = map_of
     [(''google_translate'', \<lparr>cfg_name = ''Google Translate'', cfg_authType = AuthApiKey,
         cfg_requestsPerMinute = 60, cfg_concurrentRequests = 4\<rparr>),
      (''claude'', \<lparr>cfg_name = ''Claude by Anthropic'', cfg_authType = AuthApiKey,
         cfg_requestsPerMinute = 20, cfg_concurrentRequests = 2\<rparr>),
      (''dictionary'', \<lparr>cfg_name = ''Dictionary API'', cfg_authType = AuthNone,
         cfg_requestsPerMinute = 30, cfg_concurrentRequests = 3\<rparr>),
      (''exchange_rates'', \<lparr>cfg_name = ''Exchange Rates API'', cfg_authType = AuthNone,
         cfg_requestsPerMinute = 30, cfg_concurrentRequests = 2\<rparr>),
      (''web_archive'', \<lparr>cfg_name = ''Web Archive API'', cfg_authType = AuthNone,
         cfg_requestsPerMinute = 10, cfg_concurrentRequests = 1\<rparr>)]"

text \<open>
  \<^verbatim>\<open>API_CONFIG\<close>, \<^verbatim>\<open>this.usageStats\<close> and \<^verbatim>\<open>this.authTokens\<close> are plain objects, and the
  code reads them with \<^verbatim>\<open>obj[apiId]\<close>: the read also finds what \<^verbatim>\<open>Object.prototype\<close>
  defines (functions, and the prototype itself under \<^verbatim>\<open>__proto__\<close>), all of them truthy
  and none of them with an \<^verbatim>\<open>authType\<close>, a \<^verbatim>\<open>requestCount\<close> or the other counters. A map
  holds the own properties.
\<close>

definition Object_prototype_keys :: "string list" where
  "Object_prototype_keys =
     [''constructor'', ''__defineGetter__'', ''__defineSetter__'', ''hasOwnProperty'',
      ''__lookupGetter__'', ''__lookupSetter__'', ''isPrototypeOf'', ''propertyIsEnumerable'',
      ''toString'', ''valueOf'', ''__proto__'', ''toLocaleString'']"

datatype 'a property = Own 'a | Inherited | Missing

definition property_of :: "(string \<rightharpoonup> 'a) \<Rightarrow> string \<Rightarrow> 'a property" where
  "property_of obj key =
     (case obj key of
        Some v \<Rightarrow> Own v
      | None \<Rightarrow> if key \<in> set Object_prototype_keys then Inherited else Missing)"

text \<open>
  What a request thunk can throw: an \<^verbatim>\<open>ApiError\<close> of the request client or another
  \<^verbatim>\<open>Error\<close>.
\<close>

datatype thrown = ApiErr api_error | OtherErr js_exn

fun thrown_message :: "thrown \<Rightarrow> string" where
  "thrown_message (ApiErr e) = err_message e"
| "thrown_message (OtherErr e) = exn_message e"

text \<open>
  \<^verbatim>\<open>error instanceof apiUtils.ApiError ? error.type : 'unknown'\<close>; the string
  \<^verbatim>\<open>'unknown'\<close> is \<^verbatim>\<open>ERROR_TYPES.UNKNOWN\<close>.
\<close>

fun thrown_type :: "thrown \<Rightarrow> error_type" where
  "thrown_type (ApiErr e) = err_type e"
| "thrown_type (OtherErr e) = UNKNOWN"

record last_error =
  le_timestamp :: int
  le_message :: string
  le_type :: error_type

record usage_stats =
  requestCount :: int
  lastRequest :: "int option"
  errorCount :: int
  lastError :: "last_error option"
  quotaUsage :: int

record auth_token =
  token :: string
  expiresAt :: int

text \<open>
  One call \<^verbatim>\<open>storageManager.setSetting(path, value, saveImmediately)\<close> that the API
  manager makes, with its arguments; the value is the manager's own statistics object,
  recorded as it is at the call.
\<close>

record setting_write =
  sw_path :: string
  sw_stats :: "string \<rightharpoonup> usage_stats"
  sw_saveImmediately :: bool

record api_manager =
  usageStats :: "string \<rightharpoonup> usage_stats"
  authTokens :: "string \<rightharpoonup> auth_token"
  settingWrites :: "setting_write list"

definition fresh_stats :: usage_stats where
  "fresh_stats = \<lparr>requestCount = 0, lastRequest = None, errorCount = 0, lastError = None,
                   quotaUsage = 0\<rparr>"

text \<open>\<^verbatim>\<open>saveUsageStats\<close>: \<^verbatim>\<open>setSetting('api.usageStats', this.usageStats, false)\<close>.\<close>

definition saveUsageStats :: "api_manager \<Rightarrow> api_manager" where
  "saveUsageStats m =
     m\<lparr>settingWrites := settingWrites m @
          [\<lparr>sw_path = ''api.usageStats'', sw_stats = usageStats m, sw_saveImmediately = False\<rparr>]\<rparr>"

text \<open>
  \<^verbatim>\<open>recordRequestAttempt\<close>; \<open>now\<close> is \<^verbatim>\<open>Date.now()\<close>. Under an inherited name the
  counter and the time are written on the inherited object, and the statistics keep
  their properties.
\<close>

definition recordRequestAttempt :: "string \<Rightarrow> int \<Rightarrow> api_manager \<Rightarrow> api_manager" where
  "recordRequestAttempt apiId now m =
     (case property_of (usageStats m) apiId of
        Inherited \<Rightarrow> m
      | Own stats \<Rightarrow>
          m\<lparr>usageStats := (usageStats m)(apiId \<mapsto>
                stats\<lparr>requestCount := requestCount stats + 1, lastRequest := Some now\<rparr>)\<rparr>
      | Missing \<Rightarrow>
          m\<lparr>usageStats := (usageStats m)(apiId \<mapsto>
                fresh_stats\<lparr>requestCount := requestCount fresh_stats + 1, lastRequest := Some now\<rparr>)\<rparr>)"

text \<open>
  \<^verbatim>\<open>recordRequestSuccess\<close>: the test is on \<^verbatim>\<open>requestCount\<close>. The \<^verbatim>\<open>requestCount\<close> of an
  inherited object is not a number, and the test fails.
\<close>

definition recordRequestSuccess :: "string \<Rightarrow> api_manager \<Rightarrow> api_manager" where
  "recordRequestSuccess apiId m =
     (case property_of (usageStats m) apiId of
        Missing \<Rightarrow> m
      | Inherited \<Rightarrow> m
      | Own stats \<Rightarrow>
          (let m1 = m\<lparr>usageStats := (usageStats m)(apiId \<mapsto>
                        stats\<lparr>quotaUsage := quotaUsage stats + 1\<rparr>)\<rparr>
           in if requestCount stats mod 10 = 0 then saveUsageStats m1 else m1))"

text \<open>
  \<^verbatim>\<open>handleApiError\<close>, for an error object. \<open>Inr ()\<close> is the early \<^verbatim>\<open>return\<close> (the value
  \<^verbatim>\<open>undefined\<close>), \<open>Inl\<close> what the function throws: the error it was given, or the
  \<^verbatim>\<open>TypeError\<close> of reading \<^verbatim>\<open>authType\<close> of a service that \<^verbatim>\<open>API_CONFIG\<close> does not have.
\<close>

definition handleApiError ::
  "string \<Rightarrow> thrown \<Rightarrow> int \<Rightarrow> api_manager \<Rightarrow> (thrown + unit) \<times> api_manager" where
  "handleApiError apiId error now m =
     (case property_of (usageStats m) apiId of
        Missing \<Rightarrow> (Inr (), m)
      | entry \<Rightarrow>
          (let m0 = (case entry of
                       Own stats \<Rightarrow>
                         m\<lparr>usageStats := (usageStats m)(apiId \<mapsto>
                              stats\<lparr>errorCount := errorCount stats + 1,
                                    lastError := Some \<lparr>le_timestamp = now,
                                                       le_message = thrown_message error,
                                                       le_type = thrown_type error\<rparr>\<rparr>)\<rparr>
                     | _ \<Rightarrow> m);
               m1 = saveUsageStats m0
           in case error of
                ApiErr e \<Rightarrow>
                  if err_type e = AUTH
                  then (case property_of API_CONFIG apiId of
                          Missing \<Rightarrow> (Inl (OtherErr \<lparr>exn_name = ''TypeError'',
                                     exn_message = ''Cannot read properties of undefined''\<rparr>), m1)
                        | Inherited \<Rightarrow> (Inl error, m1)
                        | Own cfg \<Rightarrow>
                            if cfg_authType cfg = AuthOAuth
                            then (Inl error, m1\<lparr>authTokens := (authTokens m1)(apiId := None)\<rparr>)
                            else (Inl error, m1))
                  else (Inl error, m1)
              | OtherErr _ \<Rightarrow> (Inl error, m1)))"

text \<open>
  \<^verbatim>\<open>makeRequest(apiId, requestFn)\<close> in its two halves, before and after
  \<^verbatim>\<open>await requestFn()\<close>. The first is the guard and \<^verbatim>\<open>recordRequestAttempt\<close>; \<open>Inl\<close> is
  the rejection of the guard. The thunk is an oracle: \<open>outcome\<close> is what the \<^verbatim>\<open>await\<close>
  yields (\<open>Inl\<close> the value thrown), and the second half starts from the state the
  manager is in by then. Its result is what the promise of \<^verbatim>\<open>makeRequest\<close> settles with:
  \<open>Inl\<close> a rejection, \<open>Inr None\<close> the value \<^verbatim>\<open>undefined\<close>.
\<close>

definition makeRequest_begin :: "string \<Rightarrow> int \<Rightarrow> api_manager \<Rightarrow> (thrown + unit) \<times> api_manager"
  where
  "makeRequest_begin apiId now m =
     (case property_of API_CONFIG apiId of
        Missing \<Rightarrow> (Inl (OtherErr \<lparr>exn_name = ''Error'', exn_message = ''Unknown API: '' @ apiId\<rparr>), m)
      | _ \<Rightarrow> (Inr (), recordRequestAttempt apiId now m))"

definition makeRequest_settle ::
  "string \<Rightarrow> (thrown + json) \<Rightarrow> int \<Rightarrow> api_manager \<Rightarrow> (thrown + json option) \<times> api_manager"
  where
  "makeRequest_settle apiId outcome later m =
     (case outcome of
        Inr result \<Rightarrow> (Inr (Some result), recordRequestSuccess apiId m)
      | Inl error \<Rightarrow>
          (case handleApiError apiId error later m of
             (Inl thrown, m2) \<Rightarrow> (Inl thrown, m2)
           | (Inr _, m2) \<Rightarrow> (Inr None, m2)))"

text \<open>
  One request from its call to its settling, with nothing else of the manager running
  while the thunk is awaited; \<open>now\<close> is the clock when the attempt is recorded and
  \<open>later\<close> the clock when the error is handled.
\<close>

definition makeRequest ::
  "string \<Rightarrow> (thrown + json) \<Rightarrow> int \<Rightarrow> int \<Rightarrow> api_manager \<Rightarrow> (thrown + json option) \<times> api_manager"
  where
  "makeRequest apiId outcome now later m =
     (case makeRequest_begin apiId now m of
        (Inl thrown, m1) \<Rightarrow> (Inl thrown, m1)
      | (Inr _, m1) \<Rightarrow> makeRequest_settle apiId outcome later m1)"

text \<open>
  Requests that overlap: the first halves and the second halves of any number of
  requests, in any order. A request that the guard rejected has no second half.
\<close>

datatype request_event = Begins string int | Settles string "thrown + json" int

fun request_step :: "request_event \<Rightarrow> api_manager \<Rightarrow> api_manager" where
  "request_step (Begins apiId now) m = snd (makeRequest_begin apiId now m)"
| "request_step (Settles apiId outcome later) m =
     (if property_of API_CONFIG apiId = Missing then m
      else snd (makeRequest_settle apiId outcome later m))"

definition request_run :: "request_event list \<Rightarrow> api_manager \<Rightarrow> api_manager" where
  "request_run evs m = fold request_step evs m"

text \<open>
  A sequence of requests to one service, one after the other; the clock is not read
  by anything the claims are about and is fixed.
\<close>

fun makeRequests :: "string \<Rightarrow> (thrown + json) list \<Rightarrow> api_manager \<Rightarrow> api_manager" where
  "makeRequests apiId [] m = m"
| "makeRequests apiId (outcome # rest) m =
     makeRequests apiId rest (snd (makeRequest apiId outcome 0 0 m))"

definition new_api_manager :: api_manager where
  "new_api_manager = \<lparr>usageStats = Map.empty, authTokens = Map.empty, settingWrites = []\<rparr>"

text \<open>
  The attempts a service's statistics have counted (\<^verbatim>\<open>requestCount\<close>; \<open>0\<close> without an
  entry), whether they succeeded, failed or are still under way.
\<close>

definition attempts_so_far :: "string \<Rightarrow> api_manager \<Rightarrow> int" where
  "attempts_so_far apiId m =
     (case usageStats m apiId of None \<Rightarrow> 0 | Some s \<Rightarrow> requestCount s)"

definition sample_error :: thrown where
  "sample_error = OtherErr \<lparr>exn_name = ''Error'', exn_message = ''boom''\<rparr>"

text \<open>The calls of \<^verbatim>\<open>setSetting\<close> made between two states of the manager.\<close>

definition calls_since :: "api_manager \<Rightarrow> api_manager \<Rightarrow> setting_write list" where
  "calls_since m m' = drop (length (settingWrites m)) (settingWrites m')"

section \<open>Storage manager: the statistics in the settings (background/storage-manager.js)\<close>

text \<open>
  The part of the storage manager that the statistics pass through. \<^verbatim>\<open>setSetting\<close>
  stores the reference it is given, so from the first call on
  \<^verbatim>\<open>this.settings.api.usageStats\<close> is the manager's own object; before, it is absent or
  another object. \<open>sm_chrome\<close> is what \<^verbatim>\<open>chrome.storage.local\<close> holds of the statistics
  under its key \<^verbatim>\<open>settings\<close>, \<open>sm_chrome_sets\<close> the number of calls of
  \<^verbatim>\<open>storageUtils.chrome.set\<close> made.
\<close>

datatype stats_holder = ManagersObject | OtherObject "string \<rightharpoonup> usage_stats"

record storage_manager =
  sm_usageStats :: "stats_holder option"
  sm_chrome :: "(string \<rightharpoonup> usage_stats) option"
  sm_chrome_sets :: nat

definition held :: "(string \<rightharpoonup> usage_stats) \<Rightarrow> stats_holder \<Rightarrow> (string \<rightharpoonup> usage_stats)" where
  "held live h = (case h of ManagersObject \<Rightarrow> live | OtherObject v \<Rightarrow> v)"

text \<open>
  \<^verbatim>\<open>saveSettings\<close>: the settings object goes to \<^verbatim>\<open>chrome.storage.local\<close> as it is at
  this moment (\<open>live\<close> are the manager's statistics now). \<open>accepts n\<close> says whether the
  browser takes the write numbered \<open>n\<close>; a write it refuses throws.
\<close>

definition saveSettings ::
  "(nat \<Rightarrow> bool) \<Rightarrow> (string \<rightharpoonup> usage_stats) \<Rightarrow> storage_manager \<Rightarrow> storage_manager" where
  "saveSettings accepts live sm =
     sm\<lparr>sm_chrome := (if accepts (sm_chrome_sets sm)
                       then map_option (held live) (sm_usageStats sm) else sm_chrome sm),
        sm_chrome_sets := Suc (sm_chrome_sets sm)\<rparr>"

text \<open>
  \<^verbatim>\<open>setSetting('api.usageStats', value, saveImmediately)\<close> with the manager's object as
  the value. The old and the new value are compared through \<^verbatim>\<open>JSON.stringify\<close>, a
  parameter; the old value has no JSON text when the property is absent. Only when the
  texts differ and \<^verbatim>\<open>saveImmediately\<close> is true does the call reach \<^verbatim>\<open>saveSettings\<close>. The
  change listeners, which are the callers' code, and the test for synced settings (the
  path is not one of \<^verbatim>\<open>syncedSettings\<close>) follow; they are not part of the model.
\<close>

definition setSetting ::
  "((string \<rightharpoonup> usage_stats) \<Rightarrow> string) \<Rightarrow> (nat \<Rightarrow> bool) \<Rightarrow> (string \<rightharpoonup> usage_stats) \<Rightarrow> bool \<Rightarrow>
     storage_manager \<Rightarrow> storage_manager" where
  "setSetting stringify accepts live saveImmediately sm =
     (let oldValue = sm_usageStats sm;
          sm1 = sm\<lparr>sm_usageStats := Some ManagersObject\<rparr>
      in if map_option (\<lambda>h. stringify (held live h)) oldValue \<noteq> Some (stringify live)
            \<and> saveImmediately
         then saveSettings accepts live sm1 else sm1)"

text \<open>The storage manager after the calls the API manager made, in their order.\<close>

definition storage_after ::
  "((string \<rightharpoonup> usage_stats) \<Rightarrow> string) \<Rightarrow> (nat \<Rightarrow> bool) \<Rightarrow> setting_write list \<Rightarrow>
     storage_manager \<Rightarrow> storage_manager" where
  "storage_after stringify accepts calls sm =
     fold (\<lambda>w. if sw_path w = ''api.usageStats''
                then setSetting stringify accepts (sw_stats w) (sw_saveImmediately w) else id)
          calls sm"

text \<open>Calls that all pass \<^verbatim>\<open>false\<close> for \<^verbatim>\<open>saveImmediately\<close>.\<close>

definition deferred :: "setting_write list \<Rightarrow> bool" where
  "deferred ws = list_all (\<lambda>w. \<not> sw_saveImmediately w \<and> sw_path w = ''api.usageStats'') ws"

definition empty_storage :: storage_manager where
  "empty_storage = \<lparr>sm_usageStats = None, sm_chrome = None, sm_chrome_sets = 0\<rparr>"

section \<open>Feature manager: data (background/feature-manager.js)\<close>

type_synonym settings = "(string \<times> string) list"

text \<open>
  A feature definition. A list that the definition leaves out behaves as the empty
  list in every test of the code (\<^verbatim>\<open>x && x.length > 0\<close>, \<^verbatim>\<open>x && x.includes(id)\<close>).
  \<open>fd_onActivate\<close> and \<open>fd_onDeactivate\<close> say whether the hook is a function.
\<close>

record feature_definition =
  fd_id :: string
  fd_name :: string
  fd_category :: string
  fd_permissions :: "string list"
  fd_optionalPermissions :: "string list"
  fd_hostPermissions :: "string list"
  fd_dependencies :: "string list"
  fd_conflicts :: "string list"
  fd_onActivate :: bool
  fd_onDeactivate :: bool
  fd_defaultSettings :: "settings option"

record feature_instance =
  fi_id :: string
  fi_definition :: feature_definition
  fi_active :: bool
  fi_settings :: settings

text \<open>
  The errors of an activation, one constructor per \<^verbatim>\<open>throw\<close>:
  \<^item> \<open>FeatureNotFound F\<close>: \<^verbatim>\<open>Feature with ID "F" not found\<close>;
  \<^item> \<open>DependencyNotFound D F\<close>: \<^verbatim>\<open>Dependency "D" not found for feature "F"\<close>;
  \<^item> \<open>DependencyFailed D F e\<close>: \<^verbatim>\<open>Failed to activate dependency "D" for feature "F": \<close>
    followed by the message of \<open>e\<close>;
  \<^item> \<open>ConflictActive F C\<close>: \<^verbatim>\<open>Feature "F" conflicts with active feature "C"\<close>;
  \<^item> \<open>PermissionsRequired F ps\<close>: \<^verbatim>\<open>Feature "F" requires permissions: \<close> and the list;
  \<^item> \<open>OptionalDenied F\<close>: \<^verbatim>\<open>User denied optional permissions for feature "F"\<close>;
  \<^item> \<open>HostDenied F\<close>: \<^verbatim>\<open>User denied host permissions for feature "F"\<close>;
  \<^item> \<open>HookFailed F msg\<close>: \<^verbatim>\<open>Failed to initialize feature "F": \<close> and the hook's message;
  \<^item> \<open>PlatformError msg\<close>: the error that a rejected promise of \<^verbatim>\<open>chrome.permissions\<close>
    carries, which \<^verbatim>\<open>_activateFeature\<close> lets through as it is;
  \<^item> \<open>UndefinedRead F\<close>: the \<^verbatim>\<open>TypeError\<close> of reading a property of \<^verbatim>\<open>undefined\<close>
    while activating \<open>F\<close>.
\<close>

datatype activation_error =
    FeatureNotFound string
  | DependencyNotFound string string
  | DependencyFailed string string activation_error
  | ConflictActive string string
  | PermissionsRequired string "string list"
  | OptionalDenied string
  | HostDenied string
  | HookFailed string string
  | PlatformError string
  | UndefinedRead string

text \<open>How the promise returned by \<^verbatim>\<open>activateFeature\<close> settles.\<close>

datatype outcome = Resolved feature_instance | Rejected activation_error

text \<open>
  What the manager does that an observer sees, in order: a hook is called, a hook
  threw, the feature was put into or deleted from \<^verbatim>\<open>activeFeatures\<close> (each followed at
  once by its broadcast).
\<close>

datatype trace_event =
    OnActivateCalled string
  | Activated string
  | OnDeactivateCalled string
  | OnDeactivateThrew string
  | Deactivated string

text \<open>
  The \<^verbatim>\<open>await\<close> at which \<^verbatim>\<open>_activateFeature\<close> is suspended: the promise of the nested
  \<^verbatim>\<open>activateFeature(dependencyId)\<close> (with the dependencies still to visit and the
  promise awaited), one of the five calls of \<^verbatim>\<open>chrome.permissions\<close>, or the hook.
\<close>

datatype await_point =
    AwaitDependency string "string list" nat
  | AwaitContainsPermissions
  | AwaitContainsOptional
  | AwaitRequestOptional
  | AwaitContainsHost
  | AwaitRequestHost
  | AwaitOnActivate feature_instance

text \<open>
  The one invocation of \<^verbatim>\<open>processActivationQueue\<close> that holds the flag: it is not
  running (\<open>Idle\<close>), or it is inside \<^verbatim>\<open>await this._activateFeature(featureId)\<close> with
  \<^verbatim>\<open>_activateFeature\<close> suspended (\<open>Activating\<close>, with the definition it read at its
  start) or completed with a result that the loop has not yet taken (\<open>Finished\<close>).
\<close>

datatype worker_state =
    Idle
  | Activating string feature_definition await_point
  | Finished string "activation_error + feature_instance"

text \<open>
  The module's state: the three maps (\<^verbatim>\<open>activeFeatures\<close> in insertion order, as a
  JavaScript \<^verbatim>\<open>Map\<close> iterates), the queue and flag of the manager, the suspended
  worker, how the promises handed out so far have settled (a promise is a number),
  the observable trace, and the stored per-feature settings.
\<close>

record manager =
  featureRegistry :: "string \<rightharpoonup> feature_definition"
  activeFeatures :: "(string \<times> feature_instance) list"
  pendingActivations :: "string \<rightharpoonup> nat list"
  activationQueue :: "string list"
  processingQueue :: bool
  worker :: worker_state
  settled :: "nat \<rightharpoonup> outcome"
  next_handle :: nat
  trace :: "trace_event list"
  featureSettings :: "string \<rightharpoonup> settings"

definition is_active :: "manager \<Rightarrow> string \<Rightarrow> bool" where
  "is_active m featureId = (map_of (activeFeatures m) featureId \<noteq> None)"

text \<open>A fresh manager over a registry.\<close>

definition new_manager :: "(string \<times> feature_definition) list \<Rightarrow> manager" where
  "new_manager registry =
     \<lparr>featureRegistry = map_of registry, activeFeatures = [],
      pendingActivations = Map.empty, activationQueue = [], processingQueue = False,
      worker = Idle, settled = Map.empty, next_handle = 0, trace = [],
      featureSettings = Map.empty\<rparr>"

section \<open>Feature manager: activation\<close>

text \<open>
  \<^verbatim>\<open>_activateFeature\<close> is written as its segments between two \<^verbatim>\<open>await\<close>s, last
  segment first. Each runs to the next suspension or to the end of the function.
\<close>

definition finish_activation ::
  "string \<Rightarrow> activation_error + feature_instance \<Rightarrow> manager \<Rightarrow> manager" where
  "finish_activation featureId result m = m\<lparr>worker := Finished featureId result\<rparr>"

text \<open>After the hook: \<^verbatim>\<open>activeFeatures.set\<close>, the broadcast, \<^verbatim>\<open>return featureInstance\<close>.\<close>

definition record_active :: "string \<Rightarrow> feature_instance \<Rightarrow> manager \<Rightarrow> manager" where
  "record_active featureId inst m =
     finish_activation featureId (Inr inst)
       (m\<lparr>activeFeatures := AList.update featureId inst (activeFeatures m),
          trace := trace m @ [Activated featureId]\<rparr>)"

text \<open>The settings are read, the instance is built and the hook, if any, is called.\<close>

definition create_instance :: "string \<Rightarrow> feature_definition \<Rightarrow> manager \<Rightarrow> manager" where
  "create_instance featureId def m =
     (let stored = (case featureSettings m featureId of
                      Some s \<Rightarrow> s
                    | None \<Rightarrow> (case fd_defaultSettings def of Some d \<Rightarrow> d | None \<Rightarrow> []));
          inst = \<lparr>fi_id = featureId, fi_definition = def, fi_active = True, fi_settings = stored\<rparr>
      in if fd_onActivate def
         then m\<lparr>trace := trace m @ [OnActivateCalled featureId],
                worker := Activating featureId def (AwaitOnActivate inst)\<rparr>
         else record_active featureId inst m)"

definition check_host :: "string \<Rightarrow> feature_definition \<Rightarrow> manager \<Rightarrow> manager" where
  "check_host featureId def m =
     (if fd_hostPermissions def \<noteq> []
      then m\<lparr>worker := Activating featureId def AwaitContainsHost\<rparr>
      else create_instance featureId def m)"

definition check_optional :: "string \<Rightarrow> feature_definition \<Rightarrow> manager \<Rightarrow> manager" where
  "check_optional featureId def m =
     (if fd_optionalPermissions def \<noteq> []
      then m\<lparr>worker := Activating featureId def AwaitContainsOptional\<rparr>
      else check_host featureId def m)"

definition check_required :: "string \<Rightarrow> feature_definition \<Rightarrow> manager \<Rightarrow> manager" where
  "check_required featureId def m =
     (if fd_permissions def \<noteq> []
      then m\<lparr>worker := Activating featureId def AwaitContainsPermissions\<rparr>
      else check_optional featureId def m)"

text \<open>The conflict loop: the first declared conflict that is active throws.\<close>

definition check_conflicts :: "string \<Rightarrow> feature_definition \<Rightarrow> manager \<Rightarrow> manager" where
  "check_conflicts featureId def m =
     (case find (is_active m) (fd_conflicts def) of
        Some conflictId \<Rightarrow> finish_activation featureId (Inl (ConflictActive featureId conflictId)) m
      | None \<Rightarrow> check_required featureId def m)"

text \<open>
  The synchronous part of \<^verbatim>\<open>activateFeature(featureId)\<close> up to the push on the queue;
  \<open>process\<close> is what the last statement (\<^verbatim>\<open>if (!this.processingQueue)
  this.processActivationQueue()\<close>) does. The promise returned is the next free number;
  it is settled at once when the feature is unknown or already active, and is added to
  the promises of the pending entry otherwise.
\<close>

definition activateFeature_body ::
  "(manager \<Rightarrow> manager) \<Rightarrow> string \<Rightarrow> manager \<Rightarrow> nat \<times> manager" where
  "activateFeature_body process featureId m =
     (let h = next_handle m; m0 = m\<lparr>next_handle := Suc h\<rparr>
      in case featureRegistry m0 featureId of
           None \<Rightarrow> (h, m0\<lparr>settled := (settled m0)(h \<mapsto> Rejected (FeatureNotFound featureId))\<rparr>)
         | Some _ \<Rightarrow>
             (case map_of (activeFeatures m0) featureId of
                Some inst \<Rightarrow> (h, m0\<lparr>settled := (settled m0)(h \<mapsto> Resolved inst)\<rparr>)
              | None \<Rightarrow>
                  (case pendingActivations m0 featureId of
                     Some promises \<Rightarrow>
                       (h, m0\<lparr>pendingActivations :=
                                (pendingActivations m0)(featureId \<mapsto> promises @ [h])\<rparr>)
                   | None \<Rightarrow>
                       (h, process
                             (m0\<lparr>pendingActivations := (pendingActivations m0)(featureId \<mapsto> [h]),
                                 activationQueue := activationQueue m0 @ [featureId]\<rparr>)))))"

text \<open>
  The call \<^verbatim>\<open>this.activateFeature(dependencyId)\<close> made from inside
  \<^verbatim>\<open>_activateFeature\<close>. \<^verbatim>\<open>_activateFeature\<close> runs only under
  \<^verbatim>\<open>processActivationQueue\<close>, which holds \<^verbatim>\<open>processingQueue\<close> from its first statement
  to its \<^verbatim>\<open>finally\<close>, so the last statement of \<^verbatim>\<open>activateFeature\<close> starts nothing here
  (lemma \<open>worker_holds_flag\<close> below).
\<close>

definition activateFeature_nested :: "string \<Rightarrow> manager \<Rightarrow> nat \<times> manager" where
  "activateFeature_nested = activateFeature_body (\<lambda>m. m)"

text \<open>
  The dependency loop of \<^verbatim>\<open>_activateFeature\<close>, from the dependencies still to visit: an
  unregistered dependency throws, an inactive one is activated through
  \<^verbatim>\<open>activateFeature\<close> and awaited, an active one is passed over.
\<close>

fun activate_dependencies ::
  "string \<Rightarrow> feature_definition \<Rightarrow> string list \<Rightarrow> manager \<Rightarrow> manager" where
  "activate_dependencies featureId def [] m = check_conflicts featureId def m"
| "activate_dependencies featureId def (dependencyId # rest) m =
     (if featureRegistry m dependencyId = None
      then finish_activation featureId (Inl (DependencyNotFound dependencyId featureId)) m
      else if \<not> is_active m dependencyId
      then (case activateFeature_nested dependencyId m of
              (h, m1) \<Rightarrow> m1\<lparr>worker := Activating featureId def (AwaitDependency dependencyId rest h)\<rparr>)
      else activate_dependencies featureId def rest m)"

text \<open>\<^verbatim>\<open>_activateFeature(featureId)\<close> from its first statement to its first suspension.\<close>

definition start_activation :: "string \<Rightarrow> manager \<Rightarrow> manager" where
  "start_activation featureId m =
     (case featureRegistry m featureId of
        None \<Rightarrow> finish_activation featureId (Inl (UndefinedRead featureId)) m
      | Some def \<Rightarrow> activate_dependencies featureId def (fd_dependencies def) m)"

text \<open>
  The \<^verbatim>\<open>while\<close> loop of \<^verbatim>\<open>processActivationQueue\<close> over the queue, up to its next
  suspension (the \<^verbatim>\<open>await\<close> of \<^verbatim>\<open>_activateFeature\<close>) or to the \<^verbatim>\<open>finally\<close>.
\<close>

fun process_loop :: "string list \<Rightarrow> manager \<Rightarrow> manager" where
  "process_loop [] m = m\<lparr>activationQueue := [], processingQueue := False, worker := Idle\<rparr>"
| "process_loop (featureId # rest) m =
     (if pendingActivations m featureId = None then process_loop rest m
      else start_activation featureId (m\<lparr>activationQueue := rest\<rparr>))"

definition processActivationQueue :: "manager \<Rightarrow> manager" where
  "processActivationQueue m =
     (if processingQueue m then m
      else process_loop (activationQueue m) (m\<lparr>processingQueue := True\<rparr>))"

text \<open>\<^verbatim>\<open>activateFeature(featureId)\<close> as a caller outside the worker runs it.\<close>

definition activateFeature :: "string \<Rightarrow> manager \<Rightarrow> nat \<times> manager" where
  "activateFeature =
     activateFeature_body (\<lambda>m. if \<not> processingQueue m then processActivationQueue m else m)"

text \<open>
  The loop body after \<^verbatim>\<open>await this._activateFeature(featureId)\<close>: every promise of the
  pending entry is settled with the one result and the entry is deleted; then the
  loop goes on. Without a pending entry the read of \<^verbatim>\<open>pending.promises\<close> throws in
  the \<^verbatim>\<open>try\<close> and again in the \<^verbatim>\<open>catch\<close>, and the \<^verbatim>\<open>finally\<close> releases the flag.
\<close>

definition outcome_of :: "activation_error + feature_instance \<Rightarrow> outcome" where
  "outcome_of result = (case result of Inl e \<Rightarrow> Rejected e | Inr inst \<Rightarrow> Resolved inst)"

fun settle_all :: "nat list \<Rightarrow> outcome \<Rightarrow> (nat \<rightharpoonup> outcome) \<Rightarrow> (nat \<rightharpoonup> outcome)" where
  "settle_all [] out s = s"
| "settle_all (h # hs) out s = settle_all hs out (if s h = None then s(h \<mapsto> out) else s)"

definition settle_pending ::
  "string \<Rightarrow> activation_error + feature_instance \<Rightarrow> manager \<Rightarrow> manager" where
  "settle_pending featureId result m =
     (case pendingActivations m featureId of
        None \<Rightarrow> m\<lparr>processingQueue := False, worker := Idle\<rparr>
      | Some promises \<Rightarrow>
          process_loop (activationQueue m)
            (m\<lparr>pendingActivations := (pendingActivations m)(featureId := None),
               settled := settle_all promises (outcome_of result) (settled m)\<rparr>))"

text \<open>
  What resumes the worker: a turn of the event loop (\<open>Tick\<close>: a settled promise is
  taken), the answer of \<^verbatim>\<open>chrome.permissions.contains\<close> or \<^verbatim>\<open>request\<close> or the rejection
  of its promise with an error, the hook's promise fulfilled or rejected with a message.
\<close>

datatype answer = Tick | Granted bool | PermissionFailed string | HookReturned | HookThrew string

text \<open>
  The worker resumed at its \<^verbatim>\<open>await\<close>. An answer that does not belong to the point of
  suspension, and a \<open>Tick\<close> on a promise that has not settled, change nothing.
\<close>

fun resume_activation ::
  "string \<Rightarrow> feature_definition \<Rightarrow> await_point \<Rightarrow> answer \<Rightarrow> manager \<Rightarrow> manager" where
  "resume_activation featureId def (AwaitDependency dependencyId rest h) Tick m =
     (case settled m h of
        None \<Rightarrow> m
      | Some (Rejected e) \<Rightarrow>
          finish_activation featureId (Inl (DependencyFailed dependencyId featureId e)) m
      | Some (Resolved _) \<Rightarrow> activate_dependencies featureId def rest m)"
| "resume_activation featureId def AwaitContainsPermissions (Granted b) m =
     (if b then check_optional featureId def m
      else finish_activation featureId
             (Inl (PermissionsRequired featureId (fd_permissions def))) m)"
| "resume_activation featureId def AwaitContainsOptional (Granted b) m =
     (if b then check_host featureId def m
      else m\<lparr>worker := Activating featureId def AwaitRequestOptional\<rparr>)"
| "resume_activation featureId def AwaitRequestOptional (Granted b) m =
     (if b then check_host featureId def m
      else finish_activation featureId (Inl (OptionalDenied featureId)) m)"
| "resume_activation featureId def AwaitContainsHost (Granted b) m =
     (if b then create_instance featureId def m
      else m\<lparr>worker := Activating featureId def AwaitRequestHost\<rparr>)"
| "resume_activation featureId def AwaitRequestHost (Granted b) m =
     (if b then create_instance featureId def m
      else finish_activation featureId (Inl (HostDenied featureId)) m)"
| "resume_activation featureId def AwaitContainsPermissions (PermissionFailed msg) m =
     finish_activation featureId (Inl (PlatformError msg)) m"
| "resume_activation featureId def AwaitContainsOptional (PermissionFailed msg) m =
     finish_activation featureId (Inl (PlatformError msg)) m"
| "resume_activation featureId def AwaitRequestOptional (PermissionFailed msg) m =
     finish_activation featureId (Inl (PlatformError msg)) m"
| "resume_activation featureId def AwaitContainsHost (PermissionFailed msg) m =
     finish_activation featureId (Inl (PlatformError msg)) m"
| "resume_activation featureId def AwaitRequestHost (PermissionFailed msg) m =
     finish_activation featureId (Inl (PlatformError msg)) m"
| "resume_activation featureId def (AwaitOnActivate inst) HookReturned m =
     record_active featureId inst m"
| "resume_activation featureId def (AwaitOnActivate inst) (HookThrew msg) m =
     finish_activation featureId (Inl (HookFailed featureId msg)) m"
| "resume_activation featureId def _ _ m = m"

definition resume :: "answer \<Rightarrow> manager \<Rightarrow> manager" where
  "resume a m =
     (case worker m of
        Idle \<Rightarrow> m
      | Activating featureId def point \<Rightarrow> resume_activation featureId def point a m
      | Finished featureId result \<Rightarrow>
          (if a = Tick then settle_pending featureId result m else m))"

text \<open>
  The interleavings: calls of \<^verbatim>\<open>activateFeature\<close> from outside and resumptions of the
  worker, in any order.
\<close>

datatype manager_event = CallActivate string | Resume answer

fun manager_step :: "manager_event \<Rightarrow> manager \<Rightarrow> manager" where
  "manager_step (CallActivate featureId) m = snd (activateFeature featureId m)"
| "manager_step (Resume a) m = resume a m"

definition manager_run :: "manager_event list \<Rightarrow> manager \<Rightarrow> manager" where
  "manager_run evs m = fold manager_step evs m"

text \<open>How often a hook was called, read off the trace.\<close>

definition activate_calls :: "string \<Rightarrow> manager \<Rightarrow> nat" where
  "activate_calls featureId m = count_list (trace m) (OnActivateCalled featureId)"

text \<open>
  The worker waits for the promise of a nested \<^verbatim>\<open>activateFeature\<close> that has not
  settled, and holds the flag.
\<close>

definition deadlocked :: "manager \<Rightarrow> bool" where
  "deadlocked m =
     (\<exists>F def d rest h. worker m = Activating F def (AwaitDependency d rest h) \<and>
        settled m h = None \<and> h < next_handle m \<and> processingQueue m)"

section \<open>Feature manager: deactivation\<close>

text \<open>
  \<^verbatim>\<open>deactivateFeature(featureId)\<close>, run from its call to its return. The loop goes over
  the live entries of \<^verbatim>\<open>activeFeatures\<close>: it visits the keys in insertion order and
  passes over an entry that a nested call has deleted before the iterator reached it.
  \<open>throws\<close> says for which features the deactivation hook throws; the error is logged
  and nothing else. The recursion through the dependents need not end (two active
  features that depend on each other), so the function takes the depth it may use
  and returns \<open>None\<close> when that is used up.
\<close>

fun deactivateFeature ::
    "nat \<Rightarrow> (string \<Rightarrow> bool) \<Rightarrow> string \<Rightarrow> manager \<Rightarrow> (bool \<times> manager) option"
  and deactivate_dependents ::
    "nat \<Rightarrow> (string \<Rightarrow> bool) \<Rightarrow> string \<Rightarrow> string list \<Rightarrow> manager \<Rightarrow> manager option"
  where
  "deactivateFeature 0 throws featureId m = None"
| "deactivateFeature (Suc depth) throws featureId m =
     (case map_of (activeFeatures m) featureId of
        None \<Rightarrow> Some (False, m)
      | Some featureInstance \<Rightarrow>
          (case deactivate_dependents depth throws featureId (map fst (activeFeatures m)) m of
             None \<Rightarrow> None
           | Some m1 \<Rightarrow>
               (let m2 = (if fd_onDeactivate (fi_definition featureInstance)
                          then m1\<lparr>trace := trace m1 @ OnDeactivateCalled featureId #
                                   (if throws featureId then [OnDeactivateThrew featureId] else [])\<rparr>
                          else m1)
                in Some (True, m2\<lparr>activeFeatures := AList.delete featureId (activeFeatures m2),
                                  trace := trace m2 @ [Deactivated featureId]\<rparr>))))"
| "deactivate_dependents depth throws featureId [] m = Some m"
| "deactivate_dependents depth throws featureId (activeId # rest) m =
     (case map_of (activeFeatures m) activeId of
        None \<Rightarrow> deactivate_dependents depth throws featureId rest m
      | Some inst \<Rightarrow>
          if activeId = featureId then deactivate_dependents depth throws featureId rest m
          else if featureId \<in> set (fd_dependencies (fi_definition inst))
          then (case deactivateFeature depth throws activeId m of
                  None \<Rightarrow> None
                | Some (_, m1) \<Rightarrow> deactivate_dependents depth throws featureId rest m1)
          else deactivate_dependents depth throws featureId rest m)"

text \<open>
  The active features do not depend on each other in a circle: \<open>rank\<close> is smaller at
  an active feature than at every active feature it depends on. (A feature becomes
  active only when its dependencies are active.)
\<close>

definition ranked :: "(string \<Rightarrow> nat) \<Rightarrow> manager \<Rightarrow> bool" where
  "ranked rank m =
     (\<forall>activeId inst d. map_of (activeFeatures m) activeId = Some inst \<longrightarrow>
        d \<in> set (fd_dependencies (fi_definition inst)) \<longrightarrow> is_active m d \<longrightarrow>
        rank activeId < rank d)"

text \<open>The feature a trace event is about.\<close>

fun ev_id :: "trace_event \<Rightarrow> string" where
  "ev_id (OnActivateCalled f) = f"
| "ev_id (Activated f) = f"
| "ev_id (OnDeactivateCalled f) = f"
| "ev_id (OnDeactivateThrew f) = f"
| "ev_id (Deactivated f) = f"

text \<open>
  What a run of \<open>deactivateFeature\<close> or of its loop does to a manager, from \<open>m\<close> to
  \<open>m'\<close> with the events \<open>t\<close>: the trace grows by \<open>t\<close>, nothing becomes active and no
  instance changes, and every feature that left \<^verbatim>\<open>activeFeatures\<close> had its hook (if it
  has one) called and its removal broadcast.
\<close>

definition deactivation_effect :: "manager \<Rightarrow> manager \<Rightarrow> trace_event list \<Rightarrow> bool" where
  "deactivation_effect m m' t =
     (trace m' = trace m @ t \<and>
      (\<forall>x inst. map_of (activeFeatures m') x = Some inst \<longrightarrow>
                 map_of (activeFeatures m) x = Some inst) \<and>
      (\<forall>x inst. map_of (activeFeatures m) x = Some inst \<longrightarrow> \<not> is_active m' x \<longrightarrow>
         Deactivated x \<in> set t \<and>
         (fd_onDeactivate (fi_definition inst) \<longrightarrow> OnDeactivateCalled x \<in> set t)))"

text \<open>The events of the deactivation hook of a feature, when it has one.\<close>

definition hook_events :: "(string \<Rightarrow> bool) \<Rightarrow> feature_instance \<Rightarrow> string \<Rightarrow> trace_event list" where
  "hook_events throws inst featureId =
     (if fd_onDeactivate (fi_definition inst)
      then OnDeactivateCalled featureId #
           (if throws featureId then [OnDeactivateThrew featureId] else [])
      else [])"

section \<open>Sample data\<close>

text \<open>A feature with both hooks and no permissions, and the instance built from it.\<close>

definition feat :: "string \<Rightarrow> string list \<Rightarrow> string list \<Rightarrow> feature_definition" where
  "feat featureId deps conflicts =
     \<lparr>fd_id = featureId, fd_name = featureId, fd_category = ''utilities'', fd_permissions = [],
      fd_optionalPermissions = [], fd_hostPermissions = [], fd_dependencies = deps,
      fd_conflicts = conflicts, fd_onActivate = True, fd_onDeactivate = True,
      fd_defaultSettings = None\<rparr>"

definition inst_of :: "feature_definition \<Rightarrow> feature_instance" where
  "inst_of d = \<lparr>fi_id = fd_id d, fi_definition = d, fi_active = True, fi_settings = []\<rparr>"

text \<open>A translator that depends on a dictionary, both active.\<close>

definition both_active :: manager where
  "both_active =
     (new_manager [(''dictionary'', feat ''dictionary'' [] []),
                   (''translator'', feat ''translator'' [''dictionary''] [])])
     \<lparr>activeFeatures := [(''dictionary'', inst_of (feat ''dictionary'' [] [])),
                         (''translator'', inst_of (feat ''translator'' [''dictionary''] []))]\<rparr>"

text \<open>A reader that declares the translator as a conflict; the translator is active.\<close>

definition conflict_manager :: manager where
  "conflict_manager =
     (new_manager [(''reader'', feat ''reader'' [] [''translator'']),
                   (''translator'', feat ''translator'' [] [])])
     \<lparr>activeFeatures := [(''translator'', inst_of (feat ''translator'' [] []))]\<rparr>"

text \<open>
  Registries: a translator that depends on the dictionary; a feature without an
  activation hook; features with conflicts.
\<close>

definition dependency_registry :: "(string \<times> feature_definition) list" where
  "dependency_registry =
     [(''translator'', feat ''translator'' [''dictionary''] []),
      (''dictionary'', feat ''dictionary'' [] [])]"


definition conflict_registry :: "(string \<times> feature_definition) list" where
  "conflict_registry =
     [(''reader'', feat ''reader'' [] [''translator'']),
      (''translator'', feat ''translator'' [] []),
      (''annotator'', feat ''annotator'' [''glossary''] [''translator''])]"



section \<open>Feature manager: the states a run can reach\<close>

text \<open>
  The feature whose activation the worker loop of \<^verbatim>\<open>processActivationQueue\<close> is in,
  if any.
\<close>

fun worker_feature :: "worker_state \<Rightarrow> string option" where
  "worker_feature Idle = None"
| "worker_feature (Activating f _ _) = Some f"
| "worker_feature (Finished f _) = Some f"

text \<open>
  What holds of \<^verbatim>\<open>processingQueue\<close>, \<^verbatim>\<open>activationQueue\<close> and \<^verbatim>\<open>pendingActivations\<close>
  in every state a run reaches: the flag is set exactly while the worker is in an
  activation, the queue has no duplicates, and the features with a pending entry are those
  of the queue and the one the worker is in.
\<close>

definition queue_ok :: "string option \<Rightarrow> manager \<Rightarrow> bool" where
  "queue_ok cur m =
     ((processingQueue m \<longleftrightarrow> cur \<noteq> None) \<and>
      distinct (activationQueue m) \<and>
      (cur = None \<longrightarrow> activationQueue m = []) \<and>
      (\<forall>G. pendingActivations m G \<noteq> None \<longleftrightarrow> (G \<in> set (activationQueue m) \<or> cur = Some G)) \<and>
      (\<forall>G. cur = Some G \<longrightarrow> G \<notin> set (activationQueue m)))"

text \<open>
  The promises of the pending entries are unsettled, are older than the next promise, and
  belong to one feature each.
\<close>

definition handles_ok :: "manager \<Rightarrow> bool" where
  "handles_ok m =
     ((\<forall>G hs h. pendingActivations m G = Some hs \<longrightarrow> h \<in> set hs \<longrightarrow>
         settled m h = None \<and> h < next_handle m) \<and>
      (\<forall>G G' hs hs' h. pendingActivations m G = Some hs \<longrightarrow> pendingActivations m G' = Some hs' \<longrightarrow>
         h \<in> set hs \<longrightarrow> h \<in> set hs' \<longrightarrow> G = G') \<and>
      (\<forall>h. next_handle m \<le> h \<longrightarrow> settled m h = None))"

text \<open>Only the feature the worker is in can be both pending and active.\<close>

definition active_ok :: "string option \<Rightarrow> manager \<Rightarrow> bool" where
  "active_ok cur m =
     (\<forall>G. pendingActivations m G \<noteq> None \<longrightarrow> is_active m G \<longrightarrow> cur = Some G)"

text \<open>
  The worker waits only for a promise of a pending entry; the feature it activates becomes
  active in the step that finishes the activation with its instance.
\<close>

definition worker_ok :: "manager \<Rightarrow> bool" where
  "worker_ok m =
     ((\<forall>G def d rest h. worker m = Activating G def (AwaitDependency d rest h) \<longrightarrow>
         (\<exists>hs. pendingActivations m d = Some hs \<and> h \<in> set hs)) \<and>
      (\<forall>G def pt. worker m = Activating G def pt \<longrightarrow> \<not> is_active m G) \<and>
      (\<forall>G e. worker m = Finished G (Inl e) \<longrightarrow> \<not> is_active m G) \<and>
      (\<forall>G inst. worker m = Finished G (Inr inst) \<longrightarrow> map_of (activeFeatures m) G = Some inst))"

definition manager_ok :: "manager \<Rightarrow> bool" where
  "manager_ok m =
     (queue_ok (worker_feature (worker m)) m \<and> handles_ok m \<and>
      active_ok (worker_feature (worker m)) m \<and> worker_ok m)"

text \<open>
  The effects one segment of \<^verbatim>\<open>_activateFeature\<close> can have: it stops at a permission
  request, it calls the hook, it fails, or it records the instance. The other outcome of a
  segment is that it stops at the promise of a dependency, which the nested
  \<^verbatim>\<open>activateFeature\<close> has queued.
\<close>

definition permission_point :: "await_point \<Rightarrow> bool" where
  "permission_point pt = (pt \<in> {AwaitContainsPermissions, AwaitContainsOptional, AwaitRequestOptional,
      AwaitContainsHost, AwaitRequestHost})"

definition activation_step :: "string \<Rightarrow> feature_definition \<Rightarrow> manager \<Rightarrow> manager \<Rightarrow> bool" where
  "activation_step G def m m' =
     ((\<exists>pt. permission_point pt \<and> m' = m\<lparr>worker := Activating G def pt\<rparr>) \<or>
      (\<exists>inst. m' = m\<lparr>trace := trace m @ [OnActivateCalled G],
                       worker := Activating G def (AwaitOnActivate inst)\<rparr>) \<or>
      (\<exists>e. m' = m\<lparr>worker := Finished G (Inl e)\<rparr>) \<or>
      (\<exists>inst. m' = m\<lparr>activeFeatures := AList.update G inst (activeFeatures m),
                       trace := trace m @ [Activated G], worker := Finished G (Inr inst)\<rparr>))"

definition dependency_block :: "string \<Rightarrow> feature_definition \<Rightarrow> manager \<Rightarrow> manager \<Rightarrow> bool" where
  "dependency_block G def m m' =
     (\<exists>d rest. featureRegistry m d \<noteq> None \<and> \<not> is_active m d \<and>
        m' = m\<lparr>next_handle := Suc (next_handle m),
               pendingActivations := (pendingActivations m)(d \<mapsto>
                  (case pendingActivations m d of None \<Rightarrow> [] | Some hs \<Rightarrow> hs) @ [next_handle m]),
               activationQueue := (if pendingActivations m d = None then activationQueue m @ [d]
                                   else activationQueue m),
               worker := Activating G def (AwaitDependency d rest (next_handle m))\<rparr>)"

text \<open>
  The two things \<^verbatim>\<open>activateFeature\<close> does to the state before it returns its promise:
  it adds the promise to the pending entry of the feature (queueing the feature when the
  entry is new), or it returns a promise that is already settled.
\<close>

definition add_pending :: "string \<Rightarrow> manager \<Rightarrow> manager" where
  "add_pending d m =
     m\<lparr>next_handle := Suc (next_handle m),
       pendingActivations := (pendingActivations m)(d \<mapsto>
          (case pendingActivations m d of None \<Rightarrow> [] | Some hs \<Rightarrow> hs) @ [next_handle m]),
       activationQueue := (if pendingActivations m d = None then activationQueue m @ [d]
                           else activationQueue m)\<rparr>"

definition settle_now :: "outcome \<Rightarrow> manager \<Rightarrow> manager" where
  "settle_now out m =
     m\<lparr>next_handle := Suc (next_handle m), settled := (settled m)(next_handle m \<mapsto> out)\<rparr>"

text \<open>
  A promise is tracked when it is in the pending entry of its feature. A state grows into
  another when no promise was settled and every tracked promise still is.
\<close>

definition tracked :: "string \<Rightarrow> nat \<Rightarrow> manager \<Rightarrow> bool" where
  "tracked F x m = (\<exists>hs. pendingActivations m F = Some hs \<and> x \<in> set hs)"

definition grows :: "manager \<Rightarrow> manager \<Rightarrow> bool" where
  "grows m m' =
     (settled m' = settled m \<and> (\<forall>F x. tracked F x m \<longrightarrow> tracked F x m'))"


text \<open>
  How many more calls of the hook of \<open>F\<close> the activations that are queued or under way
  can make.
\<close>

definition in_queue :: "string \<Rightarrow> manager \<Rightarrow> nat" where
  "in_queue F m = (if F \<in> set (activationQueue m) then 1 else 0)"



text \<open>
  The hook calls that an outcome of the activation of a feature stands for: one when the
  promise resolves and the definition has the hook, one when it rejects with the hook's
  failure, none when a check before the hook fails.
\<close>

fun hook_failure :: "activation_error \<Rightarrow> bool" where
  "hook_failure (HookFailed _ _) = True"
| "hook_failure _ = False"


text \<open>
  What a segment of \<^verbatim>\<open>_activateFeature\<close> before the hook does, with the cases kept apart:
  the hook is called only when the definition has it, the errors of these segments are
  not the hook's, and the instance is recorded without a call only when there is no
  hook.
\<close>

definition segment_step :: "string \<Rightarrow> feature_definition \<Rightarrow> manager \<Rightarrow> manager \<Rightarrow> bool" where
  "segment_step G def m m' =
     ((\<exists>pt. permission_point pt \<and> m' = m\<lparr>worker := Activating G def pt\<rparr>) \<or>
      (\<exists>inst. fd_onActivate def \<and>
               m' = m\<lparr>trace := trace m @ [OnActivateCalled G],
                       worker := Activating G def (AwaitOnActivate inst)\<rparr>) \<or>
      (\<exists>e. \<not> hook_failure e \<and> m' = m\<lparr>worker := Finished G (Inl e)\<rparr>) \<or>
      (\<exists>inst. \<not> fd_onActivate def \<and>
               m' = m\<lparr>activeFeatures := AList.update G inst (activeFeatures m),
                       trace := trace m @ [Activated G], worker := Finished G (Inr inst)\<rparr>))"




section \<open>The retrying executor: number of attempts\<close>






section \<open>The retrying executor: a 404 response\<close>





section \<open>Cache keys\<close>

lemma bodyStr_truthy: "truthy B \<Longrightarrow> bodyStr stringify B = serialization stringify B"
  by (cases B) (simp_all add: bodyStr_def serialization_def)

lemma bodyStr_falsy: "\<not> truthy B \<Longrightarrow> bodyStr stringify B = []"
  by (simp add: bodyStr_def)

text \<open>
  C5, as the code has it. For every url and every two bodies that are truthy (not
  \<^verbatim>\<open>undefined\<close>, \<^verbatim>\<open>null\<close>, \<^verbatim>\<open>false\<close>, \<open>0\<close> or the empty string) and whose serializations
  differ, the two POST keys differ. Every POST key differs from the GET key of the same
  url, and a GET key is the method and the url and nothing else, whatever body and
  headers the options carry. A body that is not truthy adds nothing to the key.
\<close>

theorem cache_key_distinct:
  assumes "truthy B1" "truthy B2"
    and "serialization stringify B1 \<noteq> serialization stringify B2"
  shows "createCacheKey stringify url (post_options B1) \<noteq>
           createCacheKey stringify url (post_options B2) \<and>
         createCacheKey stringify url (post_options B1) \<noteq> createCacheKey stringify url get_options \<and>
         createCacheKey stringify url (post_options B2) \<noteq> createCacheKey stringify url get_options \<and>
         (\<forall>options. method_of options = ''GET'' \<longrightarrow>
            createCacheKey stringify url options = ''GET:'' @ url) \<and>
         (\<forall>B. \<not> truthy B \<longrightarrow>
            createCacheKey stringify url (post_options B) =
              ''POST:'' @ url @ '':'' @ stringify (JObject []) @ '':'')"
proof -
  have "bodyStr stringify B1 \<noteq> bodyStr stringify B2"
    using assms by (simp add: bodyStr_truthy)
  then show ?thesis
    by (simp add: createCacheKey_def post_options_def get_options_def method_of_def
        bodyStr_falsy headerStr_def)
qed

text \<open>Two objects, with the keys the code computes for them.\<close>

theorem cache_key_distinct_witness:
  "createCacheKey json_stringify ''/translate'' (post_options (JObject [(''q'', JStr ''chat'')])) =
     ''POST:/translate:{}:{'' @ quote ''q'' @ '':'' @ quote ''chat'' @ ''}'' \<and>
   createCacheKey json_stringify ''/translate'' (post_options (JObject [(''q'', JStr ''chat'')])) \<noteq>
     createCacheKey json_stringify ''/translate'' (post_options (JObject [(''q'', JStr ''chien'')])) \<and>
   createCacheKey json_stringify ''/translate'' (post_options (JObject [(''q'', JStr ''chat'')])) \<noteq>
     createCacheKey json_stringify ''/translate'' get_options \<and>
   createCacheKey json_stringify ''/translate''
     \<lparr>co_method = None, co_body = JNum 7, co_headers = JObject [(''Accept'', JStr ''text/html'')]\<rparr> =
     ''GET:/translate''"
proof -
  have t: "truthy (JObject [(''q'', JStr ''chat'')])" "truthy (JObject [(''q'', JStr ''chien'')])"
    by simp_all
  have d: "serialization json_stringify (JObject [(''q'', JStr ''chat'')]) \<noteq>
           serialization json_stringify (JObject [(''q'', JStr ''chien'')])"
    by code_simp
  have k: "createCacheKey json_stringify ''/translate'' (post_options (JObject [(''q'', JStr ''chat'')])) =
     ''POST:/translate:{}:{'' @ quote ''q'' @ '':'' @ quote ''chat'' @ ''}''"
    by code_simp
  have g: "method_of \<lparr>co_method = None, co_body = JNum 7,
             co_headers = JObject [(''Accept'', JStr ''text/html'')]\<rparr> = ''GET''"
    by (simp add: method_of_def)
  from cache_key_distinct[OF t d, of "''/translate''"] k g show ?thesis by simp
qed

text \<open>
  The bodies \<open>0\<close> and \<^verbatim>\<open>false\<close> have the serializations \<^verbatim>\<open>0\<close> and \<^verbatim>\<open>false\<close>, and one
  key: \<^verbatim>\<open>options.body || ''\<close> replaces both by the empty string. The same holds of
  \<^verbatim>\<open>null\<close> and of a missing body.
\<close>

theorem cache_key_counterexample:
  "serialization json_stringify (JNum 0) = ''0'' \<and>
   serialization json_stringify (JBool False) = ''false'' \<and>
   serialization json_stringify JNull = ''null'' \<and>
   createCacheKey json_stringify ''/translate'' (post_options (JNum 0)) =
     createCacheKey json_stringify ''/translate'' (post_options (JBool False)) \<and>
   createCacheKey json_stringify ''/translate'' (post_options (JNum 0)) =
     createCacheKey json_stringify ''/translate'' (post_options JNull) \<and>
   createCacheKey json_stringify ''/translate'' (post_options (JNum 0)) = ''POST:/translate:{}:''"
  by code_simp

section \<open>Rate limiter: the concurrency ceiling\<close>

lemma init_default_within: "within_ceiling st \<Longrightarrow> within_ceiling (snd (init apiId no_options st))"
  by (auto simp: within_ceiling_def init_def no_options_def or_default_def Let_def split: option.splits)

lemma init_lookup: "init apiId options st = (s, st') \<Longrightarrow> st' apiId = Some s"
  by (auto simp: init_def Let_def split: option.splits)

lemma init_within:
  "within_ceiling st \<Longrightarrow> ceiling_ok (Configure apiId options) \<Longrightarrow> within_ceiling (snd (init apiId options st))"
  by (auto simp: within_ceiling_def init_def or_default_def Let_def split: option.splits if_splits)

lemma checkLimit_within:
  assumes "within_ceiling st" "checkLimit apiId now st = (b, st')"
  shows "within_ceiling st' \<and> (b \<longrightarrow> (\<exists>s. st' apiId = Some s \<and> activeRequests s < concurrentRequests s))"
  using assms
  by (auto simp: within_ceiling_def checkLimit_def init_def no_options_def or_default_def Let_def
      split: option.splits if_splits prod.splits)

lemma recordRequest_within:
  assumes "within_ceiling st" "st apiId = Some s" "activeRequests s < concurrentRequests s"
  shows "within_ceiling (recordRequest apiId now st)"
  using assms
  by (auto simp: within_ceiling_def recordRequest_def init_def Let_def split: option.splits if_splits)

lemma set_queue_within:
  assumes "within_ceiling st" "st apiId = Some s"
  shows "within_ceiling (st(apiId \<mapsto> s\<lparr>queue := q\<rparr>))" "within_ceiling (st(apiId \<mapsto> s\<lparr>queueProcessing := b\<rparr>))"
  using assms by (auto simp: within_ceiling_def)

lemma processNext_within:
  assumes "within_ceiling st"
  shows "within_ceiling (snd (processNext apiId now st))"
proof -
  obtain state st0 where i: "init apiId no_options st = (state, st0)" by force
  have w0: "within_ceiling st0" using init_default_within[OF assms, of apiId] i by simp
  have l0: "st0 apiId = Some state" using init_lookup[OF i] .
  show ?thesis
  proof (cases "queue state")
    case Nil
    with i w0 l0 show ?thesis by (simp add: processNext_def set_queue_within)
  next
    case (Cons item rest)
    obtain allowed st1 where c: "checkLimit apiId now st0 = (allowed, st1)" by force
    from checkLimit_within[OF w0 c] have w1: "within_ceiling st1"
      and a: "allowed \<Longrightarrow> \<exists>s. st1 apiId = Some s \<and> activeRequests s < concurrentRequests s" by auto
    show ?thesis
    proof (cases allowed)
      case False
      with i Cons c w1 show ?thesis by (simp add: processNext_def)
    next
      case True
      with a obtain s1 where s1: "st1 apiId = Some s1" "activeRequests s1 < concurrentRequests s1" by auto
      then have i1: "init apiId no_options st1 = (s1, st1)" by (simp add: init_def)
      have "within_ceiling (recordRequest apiId now (st1(apiId \<mapsto> s1\<lparr>queue := rest\<rparr>)))"
        using s1 w1 by (intro recordRequest_within[where s="s1\<lparr>queue := rest\<rparr>"] set_queue_within) auto
      with i Cons c True i1 show ?thesis by (simp add: processNext_def)
    qed
  qed
qed

lemma processQueue_within:
  assumes "within_ceiling st"
  shows "within_ceiling (snd (processQueue apiId now st))"
proof -
  obtain state st0 where i: "init apiId no_options st = (state, st0)" by force
  have w0: "within_ceiling st0" using init_default_within[OF assms, of apiId] i by simp
  have l0: "st0 apiId = Some state" using init_lookup[OF i] .
  show ?thesis using i w0 l0
    by (auto simp: processQueue_def intro!: processNext_within set_queue_within)
qed

lemma recordCompletion_within:
  assumes "within_ceiling st"
  shows "within_ceiling (snd (recordCompletion apiId now st))"
proof -
  obtain state st0 where i: "init apiId no_options st = (state, st0)" by force
  have w0: "within_ceiling st0" using init_default_within[OF assms, of apiId] i by simp
  have l0: "st0 apiId = Some state" using init_lookup[OF i] .
  from w0 l0 have "0 \<le> activeRequests state \<and> activeRequests state \<le> concurrentRequests state"
    by (simp add: within_ceiling_def)
  with w0 have "within_ceiling (st0(apiId \<mapsto> state\<lparr>activeRequests := max 0 (activeRequests state - 1)\<rparr>))"
    by (auto simp: within_ceiling_def)
  with i show ?thesis by (simp add: recordCompletion_def processQueue_within)
qed

lemma enqueue_within:
  assumes "within_ceiling st"
  shows "within_ceiling (snd (enqueue apiId req now st))"
proof -
  obtain state st0 where i: "init apiId no_options st = (state, st0)" by force
  have w0: "within_ceiling st0" using init_default_within[OF assms, of apiId] i by simp
  have l0: "st0 apiId = Some state" using init_lookup[OF i] .
  show ?thesis using i w0 l0
    by (auto simp: enqueue_def Let_def intro!: processQueue_within set_queue_within)
qed

lemma request_admission_within:
  assumes "within_ceiling st"
  shows "within_ceiling (snd (request_admission apiId req now st))"
proof -
  obtain allowed st1 where c: "checkLimit apiId now st = (allowed, st1)" by force
  from checkLimit_within[OF assms c] have w1: "within_ceiling st1"
      and a: "allowed \<Longrightarrow> \<exists>s. st1 apiId = Some s \<and> activeRequests s < concurrentRequests s" by auto
  show ?thesis using c w1 a
    by (auto simp: request_admission_def intro: recordRequest_within enqueue_within)
qed

lemma limiter_step_within:
  "within_ceiling st \<Longrightarrow> ceiling_ok ev \<Longrightarrow> within_ceiling (limiter_step ev st)"
proof (cases ev)
  case (Check a n)
  assume "within_ceiling st"
  with checkLimit_within[of st a n] Check show ?thesis by (cases "checkLimit a n st") auto
qed (auto intro: init_within request_admission_within recordCompletion_within processNext_within)

lemma limiter_run_within:
  "within_ceiling st \<Longrightarrow> \<forall>ev \<in> set evs. ceiling_ok ev \<Longrightarrow> within_ceiling (limiter_run evs st)"
  unfolding limiter_run_def
  by (induction evs arbitrary: st) (auto intro: limiter_step_within)

text \<open>
  C3. From the empty limiter, after any sequence of configurations (with a ceiling that
  is not negative), checks, admissions, completions, queue drains and timer polls, in
  any order and for any resources, every resource \<open>apiId\<close> that has a state satisfies
  \<open>0 \<le> activeRequests \<le> concurrentRequests\<close>. A request is recorded only in the same
  synchronous step in which \<open>checkLimit\<close> has passed.
\<close>

theorem active_within_ceiling:
  assumes "\<forall>ev \<in> set evs. ceiling_ok ev"
    and "limiter_run evs Map.empty apiId = Some s"
  shows "0 \<le> activeRequests s \<and> activeRequests s \<le> concurrentRequests s"
proof -
  have "within_ceiling Map.empty" by (simp add: within_ceiling_def)
  from limiter_run_within[OF this assms(1)] assms(2) show ?thesis
    by (simp add: within_ceiling_def)
qed

text \<open>
  A resource with a ceiling of one: the first request is admitted, the second is
  queued and waits for the poll that follows the completion of the first.
\<close>

theorem active_within_ceiling_witness:
  "limiter_run
     [Configure ''web_archive'' \<lparr>opt_requestsPerMinute = Some 10, opt_concurrentRequests = Some 1\<rparr>,
      NewRequest ''web_archive'' 1 1000, NewRequest ''web_archive'' 2 1001,
      DirectDone ''web_archive'' 2000, TimerFired ''web_archive'' 2500] Map.empty ''web_archive''
     = Some \<lparr>requestsPerMinute = 10, concurrentRequests = 1, activeRequests = 1,
             requestHistory = [1000, 2500], queue = [], queueProcessing = True\<rparr> \<and>
   (0::int) \<le> 1 \<and> (1::int) \<le> 1"
proof -
  let ?evs = "[Configure ''web_archive''
                 \<lparr>opt_requestsPerMinute = Some 10, opt_concurrentRequests = Some 1\<rparr>,
        NewRequest ''web_archive'' 1 1000, NewRequest ''web_archive'' 2 1001,
        DirectDone ''web_archive'' 2000, TimerFired ''web_archive'' 2500]"
  have ok: "\<forall>ev \<in> set ?evs. ceiling_ok ev" by simp
  have run: "limiter_run ?evs Map.empty ''web_archive''
     = Some \<lparr>requestsPerMinute = 10, concurrentRequests = 1, activeRequests = 1,
             requestHistory = [1000, 2500], queue = [], queueProcessing = True\<rparr>"
    by (simp add: limiter_run_def init_def checkLimit_def recordRequest_def processNext_def
        processQueue_def recordCompletion_def enqueue_def request_admission_def no_options_def
        or_default_def Let_def)
  from active_within_ceiling [OF ok run] run show ?thesis by simp
qed

section \<open>API manager: errors and the saving of statistics\<close>

lemma known_own: "API_CONFIG apiId = Some cfg \<Longrightarrow> property_of API_CONFIG apiId = Own cfg"
  by (simp add: property_of_def)

lemma known_not_inherited: "API_CONFIG apiId = Some cfg \<Longrightarrow> apiId \<notin> set Object_prototype_keys"
  by (auto simp: API_CONFIG_def Object_prototype_keys_def split: if_splits)

lemma attempt_creates_entry:
  assumes "API_CONFIG apiId = Some cfg"
  shows "\<exists>stats. usageStats (recordRequestAttempt apiId now m) apiId = Some stats \<and>
           requestCount stats = attempts_so_far apiId m + 1"
  using known_not_inherited[OF assms]
  by (auto simp: recordRequestAttempt_def property_of_def attempts_so_far_def fresh_stats_def
      split: option.splits)

lemma attempt_writes: "settingWrites (recordRequestAttempt apiId now m) = settingWrites m"
  by (simp add: recordRequestAttempt_def split: property.splits)

lemma handleApiError_known:
  assumes "API_CONFIG apiId = Some cfg" "usageStats m apiId = Some stats"
  shows "fst (handleApiError apiId error later m) = Inl error"
    and "settingWrites (snd (handleApiError apiId error later m)) =
           settingWrites m @ [\<lparr>sw_path = ''api.usageStats'',
              sw_stats = usageStats (snd (handleApiError apiId error later m)),
              sw_saveImmediately = False\<rparr>]"
  using assms
  by (auto simp: handleApiError_def saveUsageStats_def Let_def property_of_def
      split: thrown.splits)

text \<open>
  C10. For every known service, when the thunk throws, \<open>makeRequest\<close> rejects with the
  very error thrown: \<open>recordRequestAttempt\<close> has created the service's entry before the
  thunk runs, so the early return of \<open>handleApiError\<close> is not taken.
\<close>

theorem makeRequest_rethrows:
  assumes "API_CONFIG apiId = Some cfg"
  shows "usageStats (recordRequestAttempt apiId now m) apiId \<noteq> None \<and>
         fst (makeRequest apiId (Inl error) now later m) = Inl error"
proof -
  from assms have o: "property_of API_CONFIG apiId = Own cfg" by (rule known_own)
  obtain stats where s: "usageStats (recordRequestAttempt apiId now m) apiId = Some stats"
    using attempt_creates_entry[OF assms] by blast
  obtain r m2 where h: "handleApiError apiId error later (recordRequestAttempt apiId now m) = (r, m2)"
    by force
  with handleApiError_known(1)[OF assms s, of error later] have "r = Inl error" by simp
  with h s o show ?thesis
    by (simp add: makeRequest_def makeRequest_begin_def makeRequest_settle_def)
qed

theorem makeRequest_rethrows_witness:
  "fst (makeRequest ''claude'' (Inl sample_error) 5 6 new_api_manager) = Inl sample_error"
proof -
  have c: "API_CONFIG ''claude'' = Some \<lparr>cfg_name = ''Claude by Anthropic'',
      cfg_authType = AuthApiKey, cfg_requestsPerMinute = 20, cfg_concurrentRequests = 2\<rparr>"
    by (simp add: API_CONFIG_def)
  from makeRequest_rethrows [OF c, of 5 new_api_manager sample_error 6] show ?thesis by simp
qed

section \<open>API manager: the statistics and the browser's storage\<close>

text \<open>An entry of the statistics stays, whatever requests begin and settle.\<close>

lemma entry_kept_attempt:
  "usageStats m a \<noteq> None \<Longrightarrow> usageStats (recordRequestAttempt b now m) a \<noteq> None"
  by (simp add: recordRequestAttempt_def split: property.splits)

lemma entry_kept_success:
  "usageStats m a \<noteq> None \<Longrightarrow> usageStats (recordRequestSuccess b m) a \<noteq> None"
  by (simp add: recordRequestSuccess_def saveUsageStats_def Let_def split: property.splits)

lemma entry_kept_error:
  "usageStats m a \<noteq> None \<Longrightarrow> usageStats (snd (handleApiError b error later m)) a \<noteq> None"
  by (simp add: handleApiError_def saveUsageStats_def Let_def
      split: property.splits thrown.splits)

lemma entry_kept_step:
  "usageStats m a \<noteq> None \<Longrightarrow> usageStats (request_step ev m) a \<noteq> None"
proof (cases ev)
  case (Begins b now)
  assume e: "usageStats m a \<noteq> None"
  from entry_kept_attempt[OF e, of b now] e Begins show ?thesis
    by (auto simp: makeRequest_begin_def split: property.splits)
next
  case (Settles b outcome later)
  assume e: "usageStats m a \<noteq> None"
  obtain r m2 where h: "handleApiError b (case outcome of Inl x \<Rightarrow> x | Inr _ \<Rightarrow> sample_error) later m = (r, m2)"
    by force
  with entry_kept_error[OF e, of b "case outcome of Inl x \<Rightarrow> x | Inr _ \<Rightarrow> sample_error" later]
  have "usageStats m2 a \<noteq> None" by simp
  with Settles e h entry_kept_success[OF e, of b] show ?thesis
    by (cases outcome; cases r) (simp_all add: makeRequest_settle_def)
qed

lemma entry_kept_run:
  "usageStats m a \<noteq> None \<Longrightarrow> usageStats (request_run evs m) a \<noteq> None"
  unfolding request_run_def
proof (induction evs arbitrary: m)
  case Nil
  then show ?case by simp
next
  case (Cons ev evs)
  from Cons.IH[OF entry_kept_step[OF Cons.prems, of ev]] show ?case by simp
qed

text \<open>Every call of \<^verbatim>\<open>setSetting\<close> that a request makes passes \<^verbatim>\<open>false\<close>.\<close>

lemma success_log:
  "\<exists>ws. settingWrites (recordRequestSuccess b m) = settingWrites m @ ws \<and> deferred ws"
  by (simp add: recordRequestSuccess_def saveUsageStats_def Let_def deferred_def
      split: property.splits)

lemma error_log:
  "\<exists>ws. settingWrites (snd (handleApiError b error later m)) = settingWrites m @ ws \<and> deferred ws"
  by (simp add: handleApiError_def saveUsageStats_def Let_def deferred_def
      split: property.splits thrown.splits)

lemma settle_log:
  "\<exists>ws. settingWrites (snd (makeRequest_settle b outcome later m)) = settingWrites m @ ws \<and>
        deferred ws"
proof (cases outcome)
  case (Inr result)
  with success_log[of b m] show ?thesis by (simp add: makeRequest_settle_def)
next
  case (Inl error)
  obtain r m2 where h: "handleApiError b error later m = (r, m2)" by force
  with error_log[of b error later m] Inl show ?thesis
    by (cases r) (simp_all add: makeRequest_settle_def)
qed

lemma step_log:
  "\<exists>ws. settingWrites (request_step ev m) = settingWrites m @ ws \<and> deferred ws"
proof (cases ev)
  case (Begins b now)
  then show ?thesis
    by (simp add: makeRequest_begin_def attempt_writes deferred_def split: property.splits)
next
  case (Settles b outcome later)
  with settle_log[of b outcome later m] show ?thesis by (simp add: deferred_def)
qed

lemma run_log:
  "\<exists>ws. settingWrites (request_run evs m) = settingWrites m @ ws \<and> deferred ws"
  unfolding request_run_def
proof (induction evs arbitrary: m)
  case Nil
  show ?case by (simp add: deferred_def)
next
  case (Cons ev evs)
  from step_log[of ev m] obtain ws1 where
    a: "settingWrites (request_step ev m) = settingWrites m @ ws1" "deferred ws1" by blast
  from Cons[of "request_step ev m"] obtain ws2 where
    b: "settingWrites (fold request_step evs (request_step ev m)) =
        settingWrites (request_step ev m) @ ws2" "deferred ws2" by blast
  from a b have "settingWrites (fold request_step (ev # evs) m) = settingWrites m @ (ws1 @ ws2)"
    "deferred (ws1 @ ws2)" by (simp_all add: deferred_def)
  then show ?case by blast
qed

lemma calls_since_append: "settingWrites m' = settingWrites m @ ws \<Longrightarrow> calls_since m m' = ws"
  by (simp add: calls_since_def)

text \<open>Such calls never reach \<^verbatim>\<open>saveSettings\<close>: the browser's storage is not written.\<close>

lemma deferred_storage:
  "deferred ws \<Longrightarrow>
   sm_chrome (storage_after stringify accepts ws sm) = sm_chrome sm \<and>
   sm_chrome_sets (storage_after stringify accepts ws sm) = sm_chrome_sets sm"
  unfolding storage_after_def
  by (induction ws arbitrary: sm) (simp_all add: deferred_def setSetting_def Let_def)

lemma deferred_holder:
  "deferred (ws @ [w]) \<Longrightarrow>
   sm_usageStats (storage_after stringify accepts (ws @ [w]) sm) = Some ManagersObject"
  by (simp add: storage_after_def deferred_def setSetting_def Let_def)

text \<open>
  C8, as the code has it. A request to a known service has begun, and any other
  requests have begun and settled in the meantime. When its thunk throws, the
  statistics are handed to the settings once, at once, with \<^verbatim>\<open>saveImmediately = false\<close>;
  when it succeeds, they are handed over exactly when the \<^verbatim>\<open>requestCount\<close> of the
  service, which counts every attempt begun so far, is a multiple of ten. After the
  storage manager has taken all these calls, the settings in memory hold the manager's
  object, and what the browser's storage holds is what it held before: \<^verbatim>\<open>saveSettings\<close>
  was not called for any of them, neither on the error nor on the tenth attempt.
\<close>

theorem usage_stats_not_persisted:
  assumes known: "API_CONFIG apiId = Some cfg"
    and m1: "m1 = request_run evs (snd (makeRequest_begin apiId now m))"
    and m2: "m2 = snd (makeRequest_settle apiId (Inl error) later m1)"
    and m3: "m3 = snd (makeRequest_settle apiId (Inr result) later m1)"
  shows "fst (makeRequest_settle apiId (Inl error) later m1) = Inl error \<and>
         calls_since m1 m2 =
           [\<lparr>sw_path = ''api.usageStats'', sw_stats = usageStats m2, sw_saveImmediately = False\<rparr>] \<and>
         calls_since m1 m3 =
           (if attempts_so_far apiId m1 mod 10 = 0
            then [\<lparr>sw_path = ''api.usageStats'', sw_stats = usageStats m3,
                   sw_saveImmediately = False\<rparr>]
            else []) \<and>
         sm_usageStats (storage_after stringify accepts (calls_since m m2) sm) = Some ManagersObject \<and>
         sm_chrome (storage_after stringify accepts (calls_since m m2) sm) = sm_chrome sm \<and>
         sm_chrome_sets (storage_after stringify accepts (calls_since m m2) sm) = sm_chrome_sets sm \<and>
         sm_chrome (storage_after stringify accepts (calls_since m m3) sm) = sm_chrome sm \<and>
         sm_chrome_sets (storage_after stringify accepts (calls_since m m3) sm) = sm_chrome_sets sm"
proof -
  let ?mb = "snd (makeRequest_begin apiId now m)"
  have mb: "?mb = recordRequestAttempt apiId now m"
    by (simp add: makeRequest_begin_def known_own[OF known])
  from attempt_creates_entry[OF known, of now m] have "usageStats ?mb apiId \<noteq> None"
    by (auto simp: mb)
  from entry_kept_run[OF this, of evs] obtain stats where
    s: "usageStats m1 apiId = Some stats" by (auto simp: m1)
  from run_log[of evs ?mb] obtain ws where
    ws: "settingWrites m1 = settingWrites m @ ws" "deferred ws"
    by (auto simp: m1 mb attempt_writes)
  obtain r mh where h: "handleApiError apiId error later m1 = (r, mh)" by force
  with handleApiError_known[OF known s, of error later] have r: "r = Inl error"
    and lh: "settingWrites mh = settingWrites m1 @
       [\<lparr>sw_path = ''api.usageStats'', sw_stats = usageStats mh, sw_saveImmediately = False\<rparr>]"
    by simp_all
  from h r have e2: "makeRequest_settle apiId (Inl error) later m1 = (Inl error, mh)"
    by (simp add: makeRequest_settle_def)
  then have m2h: "m2 = mh" by (simp add: m2)
  let ?w2 = "\<lparr>sw_path = ''api.usageStats'', sw_stats = usageStats m2, sw_saveImmediately = False\<rparr>"
  have c12: "calls_since m1 m2 = [?w2]" using lh by (simp add: m2h calls_since_def)
  have "settingWrites m2 = settingWrites m @ (ws @ [?w2])" using lh ws(1) by (simp add: m2h)
  then have c2: "calls_since m m2 = ws @ [?w2]" by (rule calls_since_append)
  have d2: "deferred (ws @ [?w2])" using ws(2) by (simp add: deferred_def)
  have p: "property_of (usageStats m1) apiId = Own stats" using s by (simp add: property_of_def)
  let ?w3 = "\<lparr>sw_path = ''api.usageStats'', sw_stats = usageStats m3, sw_saveImmediately = False\<rparr>"
  have l3: "settingWrites m3 =
      (if requestCount stats mod 10 = 0 then settingWrites m1 @ [?w3] else settingWrites m1)"
    by (simp add: m3 makeRequest_settle_def recordRequestSuccess_def p Let_def saveUsageStats_def)
  have a: "attempts_so_far apiId m1 = requestCount stats" using s by (simp add: attempts_so_far_def)
  have c13: "calls_since m1 m3 = (if attempts_so_far apiId m1 mod 10 = 0 then [?w3] else [])"
    using l3 by (simp add: a calls_since_def)
  have "settingWrites m3 = settingWrites m @ (if requestCount stats mod 10 = 0 then ws @ [?w3] else ws)"
    using l3 ws(1) by simp
  then have c3: "calls_since m m3 = (if requestCount stats mod 10 = 0 then ws @ [?w3] else ws)"
    by (rule calls_since_append)
  have d3: "deferred (calls_since m m3)" using ws(2) by (simp add: c3 deferred_def)
  from e2 c12 c13 deferred_holder[OF d2, of stringify accepts sm]
    deferred_storage[OF d2, of stringify accepts sm]
    deferred_storage[OF d3, of stringify accepts sm]
  show ?thesis by (simp add: c2)
qed

text \<open>
  A request to the dictionary fails while another request to it is under way; the
  storage had nothing and has nothing afterwards.
\<close>

theorem usage_stats_not_persisted_witness:
  "fst (makeRequest_settle ''dictionary'' (Inl sample_error) 7
         (request_run [Begins ''dictionary'' 6]
            (snd (makeRequest_begin ''dictionary'' 5 new_api_manager)))) = Inl sample_error \<and>
   length (calls_since
     (request_run [Begins ''dictionary'' 6]
            (snd (makeRequest_begin ''dictionary'' 5 new_api_manager)))
     (snd (makeRequest_settle ''dictionary'' (Inl sample_error) 7
         (request_run [Begins ''dictionary'' 6]
            (snd (makeRequest_begin ''dictionary'' 5 new_api_manager)))))) = 1 \<and>
   sm_chrome (storage_after (\<lambda>stats. ''{}'') (\<lambda>n. True)
     (calls_since new_api_manager
       (snd (makeRequest_settle ''dictionary'' (Inl sample_error) 7
         (request_run [Begins ''dictionary'' 6]
            (snd (makeRequest_begin ''dictionary'' 5 new_api_manager))))))
     empty_storage) = None \<and>
   sm_chrome_sets (storage_after (\<lambda>stats. ''{}'') (\<lambda>n. True)
     (calls_since new_api_manager
       (snd (makeRequest_settle ''dictionary'' (Inl sample_error) 7
         (request_run [Begins ''dictionary'' 6]
            (snd (makeRequest_begin ''dictionary'' 5 new_api_manager))))))
     empty_storage) = 0"
proof -
  let ?m1 = "request_run [Begins ''dictionary'' 6]
            (snd (makeRequest_begin ''dictionary'' 5 new_api_manager))"
  let ?m2 = "snd (makeRequest_settle ''dictionary'' (Inl sample_error) 7 ?m1)"
  let ?sm = "storage_after (\<lambda>stats. ''{}'') (\<lambda>n. True) (calls_since new_api_manager ?m2)
               empty_storage"
  have c: "API_CONFIG ''dictionary'' = Some \<lparr>cfg_name = ''Dictionary API'',
      cfg_authType = AuthNone, cfg_requestsPerMinute = 30, cfg_concurrentRequests = 3\<rparr>"
    by (simp add: API_CONFIG_def)
  note t = usage_stats_not_persisted[where evs = "[Begins ''dictionary'' 6]" and now = 5
      and m = new_api_manager and error = sample_error and later = 7 and result = "''{}''"
      and stringify = "\<lambda>stats. ''{}''" and accepts = "\<lambda>n. True" and sm = empty_storage,
      OF c refl refl refl]
  from t have a: "fst (makeRequest_settle ''dictionary'' (Inl sample_error) 7 ?m1) = Inl sample_error"
    by blast
  from t have "calls_since ?m1 ?m2 =
      [\<lparr>sw_path = ''api.usageStats'', sw_stats = usageStats ?m2, sw_saveImmediately = False\<rparr>]"
    by blast
  then have b: "length (calls_since ?m1 ?m2) = 1" by simp
  from t have "sm_chrome ?sm = sm_chrome empty_storage"
    and "sm_chrome_sets ?sm = sm_chrome_sets empty_storage"
    by blast+
  then have d: "sm_chrome ?sm = None" "sm_chrome_sets ?sm = 0"
    by (simp_all add: empty_storage_def)
  from a b d show ?thesis by blast
qed

text \<open>
  The count behind the test on success is the count of attempts. One failed request
  followed by successful ones, on a fresh manager: the call of \<^verbatim>\<open>setSetting\<close> on success
  comes with the ninth success (the tenth attempt) and not with the tenth.
\<close>

lemma tenth_attempt:
  "length (settingWrites (makeRequests ''dictionary''
      (Inl sample_error # replicate 8 (Inr ''{}'')) new_api_manager)) = 1 \<and>
   length (settingWrites (makeRequests ''dictionary''
      (Inl sample_error # replicate 9 (Inr ''{}'')) new_api_manager)) = 2 \<and>
   length (settingWrites (makeRequests ''dictionary''
      (Inl sample_error # replicate 10 (Inr ''{}'')) new_api_manager)) = 2"
  by code_simp

section \<open>Feature manager: deactivation cascades to the dependents\<close>

lemma effect_refl: "deactivation_effect m m []"
  by (auto simp: deactivation_effect_def is_active_def)

lemma effect_trans:
  assumes "deactivation_effect m m1 t1" "deactivation_effect m1 m2 t2"
  shows "deactivation_effect m m2 (t1 @ t2)"
  unfolding deactivation_effect_def
proof (intro conjI allI impI)
  show "trace m2 = trace m @ t1 @ t2" using assms by (simp add: deactivation_effect_def)
next
  fix x inst assume "map_of (activeFeatures m2) x = Some inst"
  then show "map_of (activeFeatures m) x = Some inst"
    using assms by (simp add: deactivation_effect_def)
next
  fix x inst assume a: "map_of (activeFeatures m) x = Some inst" "\<not> is_active m2 x"
  show "Deactivated x \<in> set (t1 @ t2)"
  proof (cases "is_active m1 x")
    case False with a assms(1) show ?thesis by (auto simp: deactivation_effect_def)
  next
    case True
    then obtain i where "map_of (activeFeatures m1) x = Some i" by (auto simp: is_active_def)
    with a assms show ?thesis by (auto simp: deactivation_effect_def)
  qed
next
  fix x inst assume a: "map_of (activeFeatures m) x = Some inst" "\<not> is_active m2 x"
    "fd_onDeactivate (fi_definition inst)"
  show "OnDeactivateCalled x \<in> set (t1 @ t2)"
  proof (cases "is_active m1 x")
    case False with a assms(1) show ?thesis by (auto simp: deactivation_effect_def)
  next
    case True
    then obtain i where i: "map_of (activeFeatures m1) x = Some i" by (auto simp: is_active_def)
    with assms(1) a have "i = inst" by (auto simp: deactivation_effect_def)
    with i a assms(2) show ?thesis by (auto simp: deactivation_effect_def)
  qed
qed

lemma effect_remove:
  assumes "map_of (activeFeatures m1) F = Some inst"
  shows "deactivation_effect m1
           (m1\<lparr>activeFeatures := AList.delete F (activeFeatures m1),
               trace := trace m1 @ hook_events th inst F @ [Deactivated F]\<rparr>)
           (hook_events th inst F @ [Deactivated F])"
  using assms
  by (auto simp: deactivation_effect_def is_active_def hook_events_def AList.delete_conv'
      split: if_splits)

lemma deactivateFeature_Suc:
  "deactivateFeature (Suc n) th F m =
     (case map_of (activeFeatures m) F of
        None \<Rightarrow> Some (False, m)
      | Some inst \<Rightarrow>
          (case deactivate_dependents n th F (map fst (activeFeatures m)) m of
             None \<Rightarrow> None
           | Some m1 \<Rightarrow>
               Some (True, m1\<lparr>activeFeatures := AList.delete F (activeFeatures m1),
                              trace := trace m1 @ hook_events th inst F @ [Deactivated F]\<rparr>)))"
  by (simp add: hook_events_def Let_def split: option.splits)

declare deactivateFeature.simps(2) [simp del]

lemma effect_still_active:
  "deactivation_effect m m' t \<Longrightarrow> is_active m' x \<Longrightarrow> is_active m x"
  by (auto simp: deactivation_effect_def is_active_def)

lemma effect_instance:
  "deactivation_effect m m' t \<Longrightarrow> map_of (activeFeatures m') x = Some i \<Longrightarrow>
   map_of (activeFeatures m) x = Some i"
  by (auto simp: deactivation_effect_def)

lemma deactivate_effect:
  "deactivateFeature n th F m = Some (r, m') \<Longrightarrow>
     \<exists>t. deactivation_effect m m' t \<and> \<not> is_active m' F \<and> (r \<longleftrightarrow> is_active m F)"
  "deactivate_dependents n th F ks m = Some m'' \<Longrightarrow> \<exists>t. deactivation_effect m m'' t"
proof (induction n th F m and n th F ks m arbitrary: r m' and m''
    rule: deactivateFeature_deactivate_dependents.induct)
  case (1 th F m)
  then show ?case by simp
next
  case (2 n th F m)
  show ?case
  proof (cases "map_of (activeFeatures m) F")
    case None
    with "2.prems" have "r = False" "m' = m" by (simp_all add: deactivateFeature_Suc)
    with None show ?thesis by (auto simp: is_active_def intro: effect_refl)
  next
    case (Some inst)
    with "2.prems" obtain m1 where
      loop: "deactivate_dependents n th F (map fst (activeFeatures m)) m = Some m1"
      and res: "r = True" "m' = m1\<lparr>activeFeatures := AList.delete F (activeFeatures m1),
                              trace := trace m1 @ hook_events th inst F @ [Deactivated F]\<rparr>"
      by (auto simp: deactivateFeature_Suc split: option.splits)
    from "2.IH"[OF Some loop] obtain t1 where t1: "deactivation_effect m m1 t1" by blast
    have act: "\<not> is_active m' F" by (simp add: res is_active_def AList.delete_conv')
    show ?thesis
    proof (cases "map_of (activeFeatures m1) F")
      case None
      have "deactivation_effect m1 m' (hook_events th inst F @ [Deactivated F])"
        using None res
        by (auto simp: deactivation_effect_def is_active_def AList.delete_conv')
      from effect_trans[OF t1 this] act res Some show ?thesis by (auto simp: is_active_def)
    next
      case (Some i1)
      with t1 \<open>map_of (activeFeatures m) F = Some inst\<close> have "i1 = inst"
        by (auto dest: effect_instance)
      with Some have "deactivation_effect m1 m' (hook_events th inst F @ [Deactivated F])"
        unfolding res by (intro effect_remove) simp
      from effect_trans[OF t1 this] act res \<open>map_of (activeFeatures m) F = Some inst\<close>
      show ?thesis by (auto simp: is_active_def)
    qed
  qed
next
  case (3 n th F m)
  then show ?case by (auto intro: effect_refl)
next
  case (4 n th F k ks m)
  show ?case
  proof (cases "map_of (activeFeatures m) k")
    case None
    with "4.prems" "4.IH"(1) show ?thesis by simp
  next
    case (Some inst)
    show ?thesis
    proof (cases "k = F")
      case True
      with Some "4.prems" "4.IH"(2) show ?thesis by simp
    next
      case False
      show ?thesis
      proof (cases "F \<in> set (fd_dependencies (fi_definition inst))")
        case dep: False
        with Some False "4.prems" "4.IH"(5) show ?thesis by simp
      next
        case dep: True
        with Some False "4.prems" obtain r1 m1 where
          d: "deactivateFeature n th k m = Some (r1, m1)"
          and l: "deactivate_dependents n th F ks m1 = Some m''"
          by (auto split: option.splits)
        from "4.IH"(3)[OF Some False dep d] obtain t1 where t1: "deactivation_effect m m1 t1"
          by blast
        from "4.IH"(4)[OF Some False dep d _ l] obtain t2 where "deactivation_effect m1 m'' t2"
          by auto
        from effect_trans[OF t1 this] show ?thesis by blast
      qed
    qed
  qed
qed


lemma effect_ranked: "ranked rk m \<Longrightarrow> deactivation_effect m m' t \<Longrightarrow> ranked rk m'"
  unfolding ranked_def
  by (meson effect_instance effect_still_active)

lemma effect_unique: "deactivation_effect m m' t \<Longrightarrow> deactivation_effect m m' t' \<Longrightarrow> t' = t"
  by (simp add: deactivation_effect_def)

lemma effect_gone:
  "deactivation_effect m m' t \<Longrightarrow> is_active m x \<Longrightarrow> \<not> is_active m' x \<Longrightarrow> Deactivated x \<in> set t"
  by (auto simp: deactivation_effect_def is_active_def)

lemma deactivate_rank:
  "ranked rk m \<Longrightarrow> deactivateFeature n th F m = Some (r, m') \<Longrightarrow> deactivation_effect m m' t \<Longrightarrow>
     \<forall>e \<in> set t. rk (ev_id e) \<le> rk F"
  "ranked rk m \<Longrightarrow> is_active m F \<Longrightarrow> deactivate_dependents n th F ks m = Some m'' \<Longrightarrow>
     deactivation_effect m m'' t' \<Longrightarrow> (\<forall>e \<in> set t'. rk (ev_id e) < rk F) \<and> is_active m'' F"
proof (induction n th F m and n th F ks m arbitrary: r m' t and m'' t'
    rule: deactivateFeature_deactivate_dependents.induct)
  case (1 th F m)
  then show ?case by simp
next
  case (2 n th F m)
  show ?case
  proof (cases "map_of (activeFeatures m) F")
    case None
    with "2.prems" have "m' = m" by (simp add: deactivateFeature_Suc)
    with "2.prems"(3) have "t = []" by (simp add: deactivation_effect_def)
    then show ?thesis by simp
  next
    case (Some inst)
    with "2.prems" obtain m1 where
      loop: "deactivate_dependents n th F (map fst (activeFeatures m)) m = Some m1"
      and res: "m' = m1\<lparr>activeFeatures := AList.delete F (activeFeatures m1),
                              trace := trace m1 @ hook_events th inst F @ [Deactivated F]\<rparr>"
      by (auto simp: deactivateFeature_Suc split: option.splits)
    from deactivate_effect(2)[OF loop] obtain t1 where t1: "deactivation_effect m m1 t1" by blast
    from Some have "is_active m F" by (simp add: is_active_def)
    from "2.IH"[OF Some "2.prems"(1) this loop t1]
    have small: "\<forall>e \<in> set t1. rk (ev_id e) < rk F" by simp
    from t1 res have "trace m' = trace m @ t1 @ hook_events th inst F @ [Deactivated F]"
      by (simp add: deactivation_effect_def)
    with "2.prems"(3) have "t = t1 @ hook_events th inst F @ [Deactivated F]"
      by (simp add: deactivation_effect_def)
    with small show ?thesis by (auto simp: hook_events_def split: if_splits)
  qed
next
  case (3 n th F m)
  then have "t' = []" by (simp add: deactivation_effect_def)
  with 3 show ?case by simp
next
  case (4 n th F k ks m)
  show ?case
  proof (cases "map_of (activeFeatures m) k")
    case None
    with "4.prems" "4.IH"(1) show ?thesis by simp
  next
    case (Some inst)
    show ?thesis
    proof (cases "k = F")
      case True
      with Some "4.prems" "4.IH"(2) show ?thesis by simp
    next
      case False
      show ?thesis
      proof (cases "F \<in> set (fd_dependencies (fi_definition inst))")
        case dep: False
        with Some False "4.prems" "4.IH"(5) show ?thesis by simp
      next
        case dep: True
        with Some "4.prems"(1,2) have lt: "rk k < rk F" by (auto simp: ranked_def)
        from dep Some False "4.prems" obtain r1 m1 where
          d: "deactivateFeature n th k m = Some (r1, m1)"
          and l: "deactivate_dependents n th F ks m1 = Some m''"
          by (auto split: option.splits)
        from deactivate_effect(1)[OF d] obtain t1 where t1: "deactivation_effect m m1 t1"
          by blast
        from "4.IH"(3)[OF Some False dep "4.prems"(1) d t1]
        have s1: "\<forall>e \<in> set t1. rk (ev_id e) \<le> rk k" .
        have still: "is_active m1 F"
        proof (rule ccontr)
          assume "\<not> is_active m1 F"
          from effect_gone[OF t1 "4.prems"(2) this] s1 have "rk F \<le> rk k" by force
          with lt show False by simp
        qed
        from deactivate_effect(2)[OF l] obtain t2 where t2: "deactivation_effect m1 m'' t2"
          by blast
        from "4.IH"(4)[OF Some False dep d _ effect_ranked[OF "4.prems"(1) t1] still l t2]
        have s2: "(\<forall>e \<in> set t2. rk (ev_id e) < rk F) \<and> is_active m'' F" by simp
        from effect_unique[OF effect_trans[OF t1 t2] "4.prems"(4)] have "t' = t1 @ t2" .
        with s1 s2 lt show ?thesis by auto
      qed
    qed
  qed
qed

lemma deactivate_returns:
  "ranked rk m \<Longrightarrow> rk F < n \<Longrightarrow> \<exists>r m'. deactivateFeature n th F m = Some (r, m')"
  "ranked rk m \<Longrightarrow> is_active m F \<Longrightarrow> rk F \<le> n \<Longrightarrow>
     \<exists>m''. deactivate_dependents n th F ks m = Some m''"
proof (induction n th F m and n th F ks m
    rule: deactivateFeature_deactivate_dependents.induct)
  case (1 th F m)
  then show ?case by simp
next
  case (2 n th F m)
  show ?case
  proof (cases "map_of (activeFeatures m) F")
    case None
    then show ?thesis by (auto simp: deactivateFeature_Suc)
  next
    case (Some inst)
    then have "is_active m F" by (simp add: is_active_def)
    from "2.IH"[OF Some "2.prems"(1) this] "2.prems"(2) Some show ?thesis
      by (auto simp: deactivateFeature_Suc)
  qed
next
  case (3 n th F m)
  then show ?case by simp
next
  case (4 n th F k ks m)
  show ?case
  proof (cases "map_of (activeFeatures m) k")
    case None
    with "4.prems" "4.IH"(1) show ?thesis by simp
  next
    case (Some inst)
    show ?thesis
    proof (cases "k = F")
      case True
      with Some "4.prems" "4.IH"(2) show ?thesis by simp
    next
      case False
      show ?thesis
      proof (cases "F \<in> set (fd_dependencies (fi_definition inst))")
        case dep: False
        with Some False "4.prems" "4.IH"(5) show ?thesis by simp
      next
        case dep: True
        with Some "4.prems"(1,2) have lt: "rk k < rk F" by (auto simp: ranked_def)
        with "4.prems"(3) have "rk k < n" by simp
        from "4.IH"(3)[OF Some False dep "4.prems"(1) this] obtain r1 m1 where
          d: "deactivateFeature n th k m = Some (r1, m1)" by blast
        from deactivate_effect(1)[OF d] obtain t1 where t1: "deactivation_effect m m1 t1"
          by blast
        from deactivate_rank(1)[OF "4.prems"(1) d t1]
        have s1: "\<forall>e \<in> set t1. rk (ev_id e) \<le> rk k" .
        have still: "is_active m1 F"
        proof (rule ccontr)
          assume "\<not> is_active m1 F"
          from effect_gone[OF t1 "4.prems"(2) this] s1 have "rk F \<le> rk k" by force
          with lt show False by simp
        qed
        from "4.IH"(4)[OF Some False dep d _ effect_ranked[OF "4.prems"(1) t1] still "4.prems"(3)]
        obtain m'' where "deactivate_dependents n th F ks m1 = Some m''" by auto
        with Some False dep d show ?thesis by simp
      qed
    qed
  qed
qed

lemma dependents_cleared:
  "deactivate_dependents n th F ks m = Some m'' \<Longrightarrow> A \<in> set ks \<Longrightarrow> A \<noteq> F \<Longrightarrow>
   (\<forall>inst. map_of (activeFeatures m) A = Some inst \<longrightarrow>
            F \<in> set (fd_dependencies (fi_definition inst))) \<Longrightarrow>
   \<not> is_active m'' A"
proof (induction ks arbitrary: m)
  case Nil
  then show ?case by simp
next
  case (Cons k ks)
  have keep: "\<not> is_active m1 A \<Longrightarrow> deactivate_dependents n th F ks m1 = Some m'' \<Longrightarrow>
              \<not> is_active m'' A" for m1
    using deactivate_effect(2) effect_still_active by blast
  have same: "deactivation_effect m m1 t \<Longrightarrow>
     \<forall>inst. map_of (activeFeatures m1) A = Some inst \<longrightarrow>
            F \<in> set (fd_dependencies (fi_definition inst))" for m1 t
    using Cons.prems(4) by (auto dest: effect_instance)
  show ?case
  proof (cases "map_of (activeFeatures m) k")
    case None
    show ?thesis
    proof (cases "A = k")
      case True
      with None have "\<not> is_active m A" by (simp add: is_active_def)
      with None Cons.prems(1) keep show ?thesis by simp
    next
      case False
      with None Cons show ?thesis by simp
    qed
  next
    case (Some inst)
    show ?thesis
    proof (cases "k = F")
      case True
      with Some Cons show ?thesis by auto
    next
      case kF: False
      show ?thesis
      proof (cases "F \<in> set (fd_dependencies (fi_definition inst))")
        case dep: False
        with Some Cons.prems(4) have "A \<noteq> k" by auto
        with dep Some kF Cons show ?thesis by simp
      next
        case dep: True
        with Some kF Cons.prems(1) obtain r1 m1 where
          d: "deactivateFeature n th k m = Some (r1, m1)"
          and l: "deactivate_dependents n th F ks m1 = Some m''"
          by (auto split: option.splits)
        from deactivate_effect(1)[OF d] obtain t1 where
          t1: "deactivation_effect m m1 t1" and gone: "\<not> is_active m1 k" by blast
        show ?thesis
        proof (cases "A = k")
          case True
          with gone l keep show ?thesis by simp
        next
          case False
          with Cons.prems(2) have "A \<in> set ks" by simp
          from Cons.IH[OF l this Cons.prems(3) same[OF t1]] show ?thesis .
        qed
      qed
    qed
  qed
qed

lemma deactivate_mono:
  "deactivateFeature n th F m = Some x \<Longrightarrow> deactivateFeature (n + k) th F m = Some x"
  "deactivate_dependents n th F ks m = Some y \<Longrightarrow>
     deactivate_dependents (n + k) th F ks m = Some y"
proof (induction n th F m and n th F ks m arbitrary: x and y
    rule: deactivateFeature_deactivate_dependents.induct)
  case (1 th F m)
  then show ?case by simp
next
  case (2 n th F m)
  show ?case
  proof (cases "map_of (activeFeatures m) F")
    case None
    with "2.prems" show ?thesis by (simp add: deactivateFeature_Suc)
  next
    case (Some inst)
    with "2.prems" obtain m1 where
      loop: "deactivate_dependents n th F (map fst (activeFeatures m)) m = Some m1"
      by (auto simp: deactivateFeature_Suc split: option.splits)
    from "2.IH"[OF Some loop] loop Some "2.prems" show ?thesis
      by (simp add: deactivateFeature_Suc)
  qed
next
  case (3 n th F m)
  then show ?case by simp
next
  case (4 n th F a ks m)
  show ?case
  proof (cases "map_of (activeFeatures m) a")
    case None
    with "4.prems" "4.IH"(1) show ?thesis by simp
  next
    case (Some inst)
    show ?thesis
    proof (cases "a = F")
      case True
      with Some "4.prems" "4.IH"(2) show ?thesis by simp
    next
      case False
      show ?thesis
      proof (cases "F \<in> set (fd_dependencies (fi_definition inst))")
        case dep: False
        with Some False "4.prems" "4.IH"(5) show ?thesis by simp
      next
        case dep: True
        with Some False "4.prems" obtain r1 m1 where
          d: "deactivateFeature n th a m = Some (r1, m1)"
          and l: "deactivate_dependents n th F ks m1 = Some y"
          by (auto split: option.splits)
        from "4.IH"(3)[OF Some False dep d] "4.IH"(4)[OF Some False dep d _ l] Some False dep
        show ?thesis by simp
      qed
    qed
  qed
qed

text \<open>
  C9. Let \<open>A\<close> and \<open>B\<close> be active, \<open>A\<close> declaring \<open>B\<close> as a dependency, in a
  manager whose active features do not depend on each other in a circle. Then
  \<open>deactivateFeature(B)\<close> returns \<open>true\<close> (with every depth above the rank of \<open>B\<close>),
  and after it neither \<open>A\<close> nor \<open>B\<close> is active. Its trace is that of the loop over the
  dependents, then the deactivation hook of \<open>B\<close> (if it has one), then the removal of
  \<open>B\<close>: the hook of \<open>A\<close> and the removal of \<open>A\<close> are in the first part, which has no
  event of \<open>B\<close>. A hook that throws is logged and changes nothing else: the result is
  the same for every \<open>throws\<close> but for the logged event.
\<close>

theorem deactivation_cascade:
  assumes rk: "ranked rank m"
    and A: "map_of (activeFeatures m) A = Some instA"
    and B: "map_of (activeFeatures m) B = Some instB"
    and dep: "B \<in> set (fd_dependencies (fi_definition instA))"
  shows "\<exists>m' t. (\<forall>depth > rank B. deactivateFeature depth throws B m = Some (True, m')) \<and>
           \<not> is_active m' A \<and> \<not> is_active m' B \<and>
           trace m' = trace m @ t @ hook_events throws instB B @ [Deactivated B] \<and>
           Deactivated A \<in> set t \<and>
           (fd_onDeactivate (fi_definition instA) \<longrightarrow> OnDeactivateCalled A \<in> set t) \<and>
           OnDeactivateCalled B \<notin> set t \<and> Deactivated B \<notin> set t"
proof -
  from B have actB: "is_active m B" by (simp add: is_active_def)
  from A have actA: "is_active m A" by (simp add: is_active_def)
  from rk A dep actB have lt: "rank A < rank B" by (auto simp: ranked_def)
  then have ne: "A \<noteq> B" by auto
  from deactivate_returns(2)[OF rk actB le_refl]
  obtain m1 where loop: "deactivate_dependents (rank B) throws B (map fst (activeFeatures m)) m = Some m1"
    by blast
  define m' where "m' = m1\<lparr>activeFeatures := AList.delete B (activeFeatures m1),
      trace := trace m1 @ hook_events throws instB B @ [Deactivated B]\<rparr>"
  from loop B have res: "deactivateFeature (Suc (rank B)) throws B m = Some (True, m')"
    by (simp add: deactivateFeature_Suc m'_def)
  have all: "\<forall>depth > rank B. deactivateFeature depth throws B m = Some (True, m')"
  proof (intro allI impI)
    fix depth assume "rank B < depth"
    then have "depth = Suc (rank B) + (depth - Suc (rank B))" by simp
    with deactivate_mono(1)[OF res, of "depth - Suc (rank B)"]
    show "deactivateFeature depth throws B m = Some (True, m')" by simp
  qed
  from deactivate_effect(2)[OF loop] obtain t where t: "deactivation_effect m m1 t" by blast
  from deactivate_rank(2)[OF rk actB loop t]
  have small: "\<forall>e \<in> set t. rank (ev_id e) < rank B" by simp
  from A have "A \<in> set (map fst (activeFeatures m))"
    by (force dest: map_of_SomeD)
  from dependents_cleared[OF loop this ne] A dep have goneA: "\<not> is_active m1 A" by simp
  from t A goneA have inA: "Deactivated A \<in> set t"
    "fd_onDeactivate (fi_definition instA) \<longrightarrow> OnDeactivateCalled A \<in> set t"
    by (auto simp: deactivation_effect_def)
  have notB: "OnDeactivateCalled B \<notin> set t" "Deactivated B \<notin> set t"
    using small by force+
  have "\<not> is_active m' A" using goneA ne
    by (simp add: m'_def is_active_def AList.delete_conv')
  moreover have "\<not> is_active m' B" by (simp add: m'_def is_active_def AList.delete_conv')
  moreover have "trace m' = trace m @ t @ hook_events throws instB B @ [Deactivated B]"
    using t by (simp add: m'_def deactivation_effect_def)
  ultimately show ?thesis using all inA notB by blast
qed

text \<open>
  The translator depends on the dictionary and both are active; the translator's hook
  throws. Deactivating the dictionary removes the translator first, then the dictionary.
\<close>

theorem deactivation_cascade_witness:
  "\<exists>m'. deactivateFeature 2 (\<lambda>f. f = ''translator'') ''dictionary'' both_active = Some (True, m') \<and>
      activeFeatures m' = [] \<and>
      trace m' = [OnDeactivateCalled ''translator'', OnDeactivateThrew ''translator'', Deactivated ''translator'',
                  OnDeactivateCalled ''dictionary'', Deactivated ''dictionary'']"
proof -
  have rk: "ranked (\<lambda>f. if f = ''translator'' then 0 else 1) both_active"
    by (auto simp: ranked_def both_active_def new_manager_def feat_def inst_of_def is_active_def split: if_splits)
  have A: "map_of (activeFeatures both_active) ''translator'' = Some (inst_of (feat ''translator'' [''dictionary''] []))"
    by (simp add: both_active_def)
  have B: "map_of (activeFeatures both_active) ''dictionary'' = Some (inst_of (feat ''dictionary'' [] []))"
    by (simp add: both_active_def)
  have dep: "''dictionary'' \<in> set (fd_dependencies (fi_definition (inst_of (feat ''translator'' [''dictionary''] []))))"
    by (simp add: inst_of_def feat_def)
  from deactivation_cascade[OF rk A B dep, of "\<lambda>f. f = ''translator''"]
  obtain m' t where
    r: "\<forall>depth > (1::nat). deactivateFeature depth (\<lambda>f. f = ''translator'') ''dictionary'' both_active = Some (True, m')"
    by auto
  then have r2: "deactivateFeature 2 (\<lambda>f. f = ''translator'') ''dictionary'' both_active = Some (True, m')"
    by simp
  have "deactivateFeature 2 (\<lambda>f. f = ''translator'') ''dictionary'' both_active =
     Some (True, both_active\<lparr>activeFeatures := [],
        trace := [OnDeactivateCalled ''translator'', OnDeactivateThrew ''translator'', Deactivated ''translator'',
                  OnDeactivateCalled ''dictionary'', Deactivated ''dictionary'']\<rparr>)"
    by (simp add: numeral_2_eq_2 deactivateFeature_Suc both_active_def new_manager_def hook_events_def
        inst_of_def feat_def AList.delete_eq)
  with r2 show ?thesis by auto
qed

section \<open>Feature manager: a dependency that is not active\<close>

lemma nested_frame:
  assumes "activateFeature_nested F m = (h, m')"
  shows "h = next_handle m" "next_handle m' = Suc (next_handle m)" "worker m' = worker m"
    "activeFeatures m' = activeFeatures m" "trace m' = trace m"
    "processingQueue m' = processingQueue m" "featureRegistry m' = featureRegistry m"
    "featureSettings m' = featureSettings m"
    "\<And>k. k \<noteq> next_handle m \<Longrightarrow> settled m' k = settled m k"
    "featureRegistry m F \<noteq> None \<Longrightarrow> \<not> is_active m F \<Longrightarrow> settled m' = settled m"
  using assms
  by (auto simp: activateFeature_nested_def activateFeature_body_def Let_def is_active_def
      split: option.splits)

lemma activateFeature_busy:
  "processingQueue m \<Longrightarrow> activateFeature F m = activateFeature_nested F m"
  by (auto simp: activateFeature_def activateFeature_nested_def activateFeature_body_def Let_def
      split: option.splits)

lemma deadlocked_step:
  assumes "deadlocked m"
  shows "deadlocked (manager_step ev m) \<and>
         activeFeatures (manager_step ev m) = activeFeatures m \<and>
         trace (manager_step ev m) = trace m \<and>
         next_handle m \<le> next_handle (manager_step ev m) \<and>
         (\<forall>h < next_handle m. settled (manager_step ev m) h = settled m h)"
proof (cases ev)
  case (CallActivate G)
  obtain h m' where b: "activateFeature_nested G m = (h, m')" by force
  from assms have "processingQueue m" by (auto simp: deadlocked_def)
  with b CallActivate have s: "manager_step ev m = m'" by (simp add: activateFeature_busy)
  from assms nested_frame[OF b] show ?thesis
    unfolding s deadlocked_def by (auto; metis less_Suc_eq nat_neq_iff)
next
  case (Resume a)
  from assms obtain F def d rest h where
    w: "worker m = Activating F def (AwaitDependency d rest h)" "settled m h = None"
    by (auto simp: deadlocked_def)
  then have "resume a m = m" by (cases a) (simp_all add: resume_def)
  with Resume assms show ?thesis by simp
qed

lemma deadlocked_run:
  "deadlocked m \<Longrightarrow>
     deadlocked (manager_run evs m) \<and>
     activeFeatures (manager_run evs m) = activeFeatures m \<and>
     trace (manager_run evs m) = trace m \<and>
     next_handle m \<le> next_handle (manager_run evs m) \<and>
     (\<forall>h < next_handle m. settled (manager_run evs m) h = settled m h)"
proof (induction evs arbitrary: m)
  case Nil
  then show ?case by (simp add: manager_run_def)
next
  case (Cons ev evs)
  from deadlocked_step[OF Cons.prems, of ev] Cons.IH[of "manager_step ev m"]
  show ?case by (auto simp: manager_run_def)
qed

lemma dependencies_block:
  assumes "\<forall>d \<in> set ds. featureRegistry m d \<noteq> None" "\<exists>d \<in> set ds. \<not> is_active m d"
  shows "\<exists>d rest m1. activateFeature_nested d m = (next_handle m, m1) \<and>
           featureRegistry m d \<noteq> None \<and> \<not> is_active m d \<and>
           activate_dependencies F def ds m =
             m1\<lparr>worker := Activating F def (AwaitDependency d rest (next_handle m))\<rparr>"
  using assms
proof (induction ds)
  case Nil
  then show ?case by simp
next
  case (Cons d ds)
  show ?case
  proof (cases "is_active m d")
    case True
    with Cons show ?thesis by auto
  next
    case False
    obtain h m1 where b: "activateFeature_nested d m = (h, m1)" by force
    with nested_frame(1)[OF b] False Cons.prems(1) show ?thesis by auto
  qed
qed

lemma dependencies_pass:
  "\<forall>d \<in> set ds. featureRegistry m d \<noteq> None \<and> is_active m d \<Longrightarrow>
     activate_dependencies F def ds m = check_conflicts F def m"
  by (induction ds) auto

text \<open>the first call from an idle manager\<close>
lemma first_call:
  assumes "worker m = Idle" "\<not> processingQueue m" "activationQueue m = []"
    and "pendingActivations m F = None" "featureRegistry m F = Some def" "\<not> is_active m F"
  shows "activateFeature F m =
           (next_handle m,
            activate_dependencies F def (fd_dependencies def)
              (m\<lparr>next_handle := Suc (next_handle m),
                 pendingActivations := (pendingActivations m)(F \<mapsto> [next_handle m]),
                 processingQueue := True, activationQueue := []\<rparr>))"
  using assms
  by (simp add: activateFeature_def activateFeature_body_def Let_def is_active_def
      processActivationQueue_def start_activation_def)

text \<open>
  C1, what the code does. The manager is idle, \<open>A\<close> is registered and inactive, its
  declared dependencies are all registered and one of them, \<open>B\<close>, is inactive. Then
  after \<open>activateFeature(A)\<close>, whatever calls and resumptions follow, the promise of
  the call never settles, \<^verbatim>\<open>activeFeatures\<close> never changes (neither \<open>B\<close> nor \<open>A\<close> becomes
  active) and no hook is ever called: the worker awaits the promise of the nested
  \<open>activateFeature\<close> of a dependency, which only the worker itself could settle.
\<close>

theorem dependency_deadlock:
  assumes idle: "worker m = Idle" "\<not> processingQueue m" "activationQueue m = []"
    and np: "pendingActivations m A = None"
    and fresh: "\<forall>h \<ge> next_handle m. settled m h = None"
    and reg: "featureRegistry m A = Some def"
    and na: "\<not> is_active m A"
    and deps: "\<forall>d \<in> set (fd_dependencies def). featureRegistry m d \<noteq> None"
    and B: "B \<in> set (fd_dependencies def)" "\<not> is_active m B"
  shows "fst (activateFeature A m) = next_handle m \<and>
         settled (manager_run (CallActivate A # evs) m) (next_handle m) = None \<and>
         activeFeatures (manager_run (CallActivate A # evs) m) = activeFeatures m \<and>
         trace (manager_run (CallActivate A # evs) m) = trace m"
proof -
  let ?m0 = "m\<lparr>next_handle := Suc (next_handle m),
                 pendingActivations := (pendingActivations m)(A \<mapsto> [next_handle m]),
                 processingQueue := True, activationQueue := []\<rparr>"
  have call: "activateFeature A m = (next_handle m, activate_dependencies A def (fd_dependencies def) ?m0)"
    using idle np reg na by (rule first_call)
  have "\<forall>d \<in> set (fd_dependencies def). featureRegistry ?m0 d \<noteq> None" using deps by simp
  moreover have "\<exists>d \<in> set (fd_dependencies def). \<not> is_active ?m0 d"
    using B by (auto simp: is_active_def)
  ultimately obtain d rest m1 where
    n: "activateFeature_nested d ?m0 = (next_handle ?m0, m1)"
    and dreg: "featureRegistry ?m0 d \<noteq> None" "\<not> is_active ?m0 d"
    and r: "activate_dependencies A def (fd_dependencies def) ?m0 =
           m1\<lparr>worker := Activating A def (AwaitDependency d rest (next_handle ?m0))\<rparr>"
    using dependencies_block[of "fd_dependencies def" ?m0 A "def"] by blast
  let ?m2 = "m1\<lparr>worker := Activating A def (AwaitDependency d rest (next_handle ?m0))\<rparr>"
  from nested_frame[OF n] dreg have f:
    "next_handle m1 = Suc (Suc (next_handle m))" "activeFeatures m1 = activeFeatures m"
    "trace m1 = trace m" "processingQueue m1" "settled m1 = settled m"
    by simp_all
  have dl: "deadlocked ?m2"
    using f fresh by (auto simp: deadlocked_def)
  have step: "manager_run (CallActivate A # evs) m = manager_run evs ?m2"
    by (simp add: manager_run_def call r)
  from deadlocked_run[OF dl, of evs] f fresh show ?thesis
    by (simp add: step call)
qed


theorem dependency_deadlock_witness:
  "settled (manager_run [CallActivate ''translator'', Resume Tick, Resume HookReturned,
       Resume (Granted True), CallActivate ''dictionary'', Resume Tick, Resume HookReturned, Resume Tick]
      (new_manager dependency_registry)) 0 = None \<and>
   activeFeatures (manager_run [CallActivate ''translator'', Resume Tick, Resume HookReturned,
       Resume (Granted True), CallActivate ''dictionary'', Resume Tick, Resume HookReturned, Resume Tick]
      (new_manager dependency_registry)) = [] \<and>
   trace (manager_run [CallActivate ''translator'', Resume Tick, Resume HookReturned,
       Resume (Granted True), CallActivate ''dictionary'', Resume Tick, Resume HookReturned, Resume Tick]
      (new_manager dependency_registry)) = []"
proof -
  let ?m = "new_manager dependency_registry"
  have h: "worker ?m = Idle" "\<not> processingQueue ?m" "activationQueue ?m = []"
    "pendingActivations ?m ''translator'' = None"
    "\<forall>h \<ge> next_handle ?m. settled ?m h = None"
    "featureRegistry ?m ''translator'' = Some (feat ''translator'' [''dictionary''] [])"
    "\<not> is_active ?m ''translator''"
    "\<forall>d \<in> set (fd_dependencies (feat ''translator'' [''dictionary''] [])). featureRegistry ?m d \<noteq> None"
    "''dictionary'' \<in> set (fd_dependencies (feat ''translator'' [''dictionary''] []))"
    "\<not> is_active ?m ''dictionary''"
    by (simp_all add: dependency_registry_def new_manager_def is_active_def feat_def)
  from dependency_deadlock[OF h, of "[Resume Tick, Resume HookReturned,
       Resume (Granted True), CallActivate ''dictionary'', Resume Tick, Resume HookReturned, Resume Tick]"]
  show ?thesis by (simp add: new_manager_def)
qed


section \<open>Feature manager: conflicts\<close>

lemma find_active:
  "C \<in> set cs \<Longrightarrow> is_active m C \<Longrightarrow> \<exists>c \<in> set cs. is_active m c \<and> find (is_active m) cs = Some c"
  by (induction cs) auto

text \<open>
  C7, as the code has it. The manager is idle (no activation in flight), \<open>F\<close> is
  registered and not active, every dependency \<open>F\<close> declares is registered and active,
  \<open>F\<close> declares \<open>C\<close> as a conflict and \<open>C\<close> is active. Then the promise of
  \<open>activateFeature(F)\<close> is rejected, at the worker's next turn, with the conflict error
  that names \<open>F\<close> and the first feature of its conflicts list that is active (the one
  \<open>find\<close> returns); \<^verbatim>\<open>activeFeatures\<close> is unchanged (\<open>F\<close> is not added, \<open>C\<close> keeps its instance) and no hook is called.
\<close>

theorem conflict_rejects:
  assumes idle: "worker m = Idle" "\<not> processingQueue m" "activationQueue m = []"
    and np: "pendingActivations m F = None"
    and fresh: "settled m (next_handle m) = None"
    and reg: "featureRegistry m F = Some def"
    and na: "\<not> is_active m F"
    and deps: "\<forall>d \<in> set (fd_dependencies def). featureRegistry m d \<noteq> None \<and> is_active m d"
    and C: "C \<in> set (fd_conflicts def)" "map_of (activeFeatures m) C = Some instC"
  shows "fst (activateFeature F m) = next_handle m \<and>
         (\<exists>c. find (is_active m) (fd_conflicts def) = Some c \<and>
            settled (manager_run [CallActivate F, Resume Tick] m) (next_handle m) =
              Some (Rejected (ConflictActive F c))) \<and>
         activeFeatures (manager_run [CallActivate F, Resume Tick] m) = activeFeatures m \<and>
         map_of (activeFeatures (manager_run [CallActivate F, Resume Tick] m)) C = Some instC \<and>
         \<not> is_active (manager_run [CallActivate F, Resume Tick] m) F \<and>
         trace (manager_run [CallActivate F, Resume Tick] m) = trace m"
proof -
  let ?m0 = "m\<lparr>next_handle := Suc (next_handle m),
                 pendingActivations := (pendingActivations m)(F \<mapsto> [next_handle m]),
                 processingQueue := True, activationQueue := []\<rparr>"
  have call: "activateFeature F m = (next_handle m, activate_dependencies F def (fd_dependencies def) ?m0)"
    using idle np reg na by (rule first_call)
  from C have "is_active ?m0 C" by (simp add: is_active_def)
  from find_active[OF C(1) this] obtain c where
    c: "c \<in> set (fd_conflicts def)" "is_active ?m0 c" "find (is_active ?m0) (fd_conflicts def) = Some c"
    by blast
  have "activate_dependencies F def (fd_dependencies def) ?m0 = check_conflicts F def ?m0"
    using deps by (intro dependencies_pass) (simp add: is_active_def)
  also have "\<dots> = ?m0\<lparr>worker := Finished F (Inl (ConflictActive F c))\<rparr>"
    using c by (simp add: check_conflicts_def finish_activation_def)
  finally have m1: "snd (activateFeature F m) = ?m0\<lparr>worker := Finished F (Inl (ConflictActive F c))\<rparr>"
    by (simp add: call)
  have run: "manager_run [CallActivate F, Resume Tick] m =
      ?m0\<lparr>worker := Idle, pendingActivations := (pendingActivations m)(F := None),
           settled := (settled m)(next_handle m \<mapsto> Rejected (ConflictActive F c)),
           processingQueue := False\<rparr>"
    using fresh
    by (simp add: manager_run_def m1 resume_def settle_pending_def outcome_of_def)
  have "is_active ?m0 = is_active m" by (rule ext) (simp add: is_active_def)
  with c(3) have "find (is_active m) (fd_conflicts def) = Some c" by simp
  with C na show ?thesis
    by (auto simp: run call is_active_def)
qed

theorem conflict_rejects_witness:
  "settled (manager_run [CallActivate ''reader'', Resume Tick] conflict_manager) 0 =
     Some (Rejected (ConflictActive ''reader'' ''translator'')) \<and>
   activeFeatures (manager_run [CallActivate ''reader'', Resume Tick] conflict_manager) =
     [(''translator'', inst_of (feat ''translator'' [] []))] \<and>
   trace (manager_run [CallActivate ''reader'', Resume Tick] conflict_manager) = []"
proof -
  have h: "worker conflict_manager = Idle" "\<not> processingQueue conflict_manager"
    "activationQueue conflict_manager = []" "pendingActivations conflict_manager ''reader'' = None"
    "settled conflict_manager (next_handle conflict_manager) = None"
    "featureRegistry conflict_manager ''reader'' = Some (feat ''reader'' [] [''translator''])"
    "\<not> is_active conflict_manager ''reader''"
    "\<forall>d \<in> set (fd_dependencies (feat ''reader'' [] [''translator''])).
        featureRegistry conflict_manager d \<noteq> None \<and> is_active conflict_manager d"
    "''translator'' \<in> set (fd_conflicts (feat ''reader'' [] [''translator'']))"
    "map_of (activeFeatures conflict_manager) ''translator'' = Some (inst_of (feat ''translator'' [] []))"
    by (simp_all add: conflict_manager_def new_manager_def is_active_def feat_def)
  have f: "find (is_active conflict_manager) (fd_conflicts (feat ''reader'' [] [''translator''])) =
           Some ''translator''"
    by (simp add: conflict_manager_def new_manager_def is_active_def feat_def)
  have a: "activeFeatures conflict_manager = [(''translator'', inst_of (feat ''translator'' [] []))]"
    "trace conflict_manager = []" "next_handle conflict_manager = 0"
    by (simp_all add: conflict_manager_def new_manager_def)
  from conflict_rejects[OF h] f a show ?thesis by auto
qed

text \<open>
  The reader declares the translator as a conflict. When the reader is already active
  and the translator becomes active after it, \<open>activateFeature('reader')\<close> resolves with
  the reader's instance. And a feature that declares a conflict with the active
  translator and a dependency that is not registered is rejected for the dependency.
\<close>

theorem conflict_counterexample:
  "settled (manager_run [CallActivate ''reader'', Resume HookReturned, Resume Tick,
      CallActivate ''translator'', Resume HookReturned, Resume Tick, CallActivate ''reader'', Resume Tick]
       (new_manager conflict_registry)) 2 = Some (Resolved (inst_of (feat ''reader'' [] [''translator''])))
   \<and> map fst (activeFeatures (manager_run [CallActivate ''reader'', Resume HookReturned, Resume Tick,
      CallActivate ''translator'', Resume HookReturned, Resume Tick]
       (new_manager conflict_registry))) = [''reader'', ''translator'']
   \<and> settled (manager_run [CallActivate ''translator'', Resume HookReturned, Resume Tick,
      CallActivate ''annotator'', Resume Tick]
       (new_manager conflict_registry)) 1 = Some (Rejected (DependencyNotFound ''glossary'' ''annotator''))"
  by code_simp



section \<open>Feature manager: two calls for the same feature\<close>

lemma step_record_active: "activation_step G def m (record_active G inst m)"
  by (auto simp: activation_step_def record_active_def finish_activation_def)

lemma step_finish: "activation_step G def m (finish_activation G (Inl e) m)"
  by (auto simp: activation_step_def finish_activation_def)

lemma step_create_instance: "activation_step G def m (create_instance G def m)"
  using step_record_active[of G "def" m]
  by (auto simp: create_instance_def Let_def activation_step_def)

lemma step_check_host: "activation_step G def m (check_host G def m)"
  using step_create_instance[of G "def" m]
  by (auto simp: check_host_def activation_step_def permission_point_def)

lemma step_check_optional: "activation_step G def m (check_optional G def m)"
  using step_check_host[of G "def" m]
  by (auto simp: check_optional_def activation_step_def permission_point_def)

lemma step_check_required: "activation_step G def m (check_required G def m)"
  using step_check_optional[of G "def" m]
  by (auto simp: check_required_def activation_step_def permission_point_def)

lemma step_check_conflicts: "activation_step G def m (check_conflicts G def m)"
  using step_check_required[of G "def" m] step_finish[of G "def" m]
  by (auto simp: check_conflicts_def split: option.splits)

lemma nested_block:
  assumes "featureRegistry m d \<noteq> None" "\<not> is_active m d"
  shows "activateFeature_nested d m =
     (next_handle m,
      m\<lparr>next_handle := Suc (next_handle m),
               pendingActivations := (pendingActivations m)(d \<mapsto>
                  (case pendingActivations m d of None \<Rightarrow> [] | Some hs \<Rightarrow> hs) @ [next_handle m]),
               activationQueue := (if pendingActivations m d = None then activationQueue m @ [d]
                                   else activationQueue m)\<rparr>)"
  using assms
  by (cases m) (auto simp: activateFeature_nested_def activateFeature_body_def Let_def is_active_def
      split: option.splits)

lemma step_dependencies:
  "activation_step G def m (activate_dependencies G def ds m) \<or>
   dependency_block G def m (activate_dependencies G def ds m)"
proof (induction ds)
  case Nil
  then show ?case by (simp add: step_check_conflicts)
next
  case (Cons d ds)
  show ?case
  proof (cases "featureRegistry m d = None")
    case True
    then show ?thesis by (simp add: step_finish)
  next
    case reg: False
    show ?thesis
    proof (cases "is_active m d")
      case True
      with reg Cons show ?thesis by auto
    next
      case False
      with reg nested_block[OF reg False] have "dependency_block G def m (activate_dependencies G def (d # ds) m)"
        unfolding dependency_block_def by (cases m) auto
      then show ?thesis ..
    qed
  qed
qed

lemma step_resume:
  assumes "\<forall>d rest h. pt \<noteq> AwaitDependency d rest h"
  shows "resume_activation G def pt a m = m \<or> activation_step G def m (resume_activation G def pt a m)"
proof -
  have p: "activation_step G def m (m\<lparr>worker := Activating G def AwaitRequestOptional\<rparr>)"
    "activation_step G def m (m\<lparr>worker := Activating G def AwaitRequestHost\<rparr>)"
    by (auto simp: activation_step_def permission_point_def)
  show ?thesis using assms p
    by (cases "(G, def, pt, a, m)" rule: resume_activation.cases)
       (auto simp: step_check_optional step_check_host step_create_instance step_finish step_record_active)
qed

lemma queue_ok_frame:
  "queue_ok cur m \<Longrightarrow> processingQueue m' = processingQueue m \<Longrightarrow>
   activationQueue m' = activationQueue m \<Longrightarrow> pendingActivations m' = pendingActivations m \<Longrightarrow>
   queue_ok cur m'"
  unfolding queue_ok_def by presburger

lemma handles_ok_frame:
  "handles_ok m \<Longrightarrow> pendingActivations m' = pendingActivations m \<Longrightarrow> settled m' = settled m \<Longrightarrow>
   next_handle m' = next_handle m \<Longrightarrow> handles_ok m'"
  unfolding handles_ok_def by presburger

lemma step_fields:
  assumes "activation_step G def m m'"
  shows "processingQueue m' = processingQueue m" "activationQueue m' = activationQueue m"
    "pendingActivations m' = pendingActivations m" "settled m' = settled m"
    "next_handle m' = next_handle m" "featureRegistry m' = featureRegistry m"
    "worker_feature (worker m') = Some G"
  using assms unfolding activation_step_def
  by (elim disjE exE conjE; simp)+

lemma step_active:
  assumes "activation_step G def m m'"
  shows "is_active m' G' \<Longrightarrow> G' = G \<or> is_active m G'"
  using assms unfolding activation_step_def
  by (elim disjE exE conjE; simp add: is_active_def AList.update_conv' split: if_splits)

lemma step_worker_ok:
  assumes "activation_step G def m m'" "\<not> is_active m G"
  shows "worker_ok m'"
  using assms unfolding activation_step_def
  by (elim disjE exE conjE;
      simp add: worker_ok_def is_active_def AList.update_conv' permission_point_def; blast?)

lemma ok_after_step:
  assumes q: "queue_ok (Some G) m" and h: "handles_ok m" and a: "active_ok (Some G) m"
    and na: "\<not> is_active m G" and s: "activation_step G def m m'"
  shows "manager_ok m'"
proof -
  note f = step_fields[OF s]
  have "queue_ok (Some G) m'" using q f(1-3) by (rule queue_ok_frame)
  moreover have "handles_ok m'" using h f(3-5) by (rule handles_ok_frame)
  moreover have "active_ok (Some G) m'"
    unfolding active_ok_def
  proof (intro allI impI)
    fix G' assume "pendingActivations m' G' \<noteq> None" "is_active m' G'"
    with f(3) step_active[OF s, of G'] a show "Some G = Some G'" unfolding active_ok_def by metis
  qed
  moreover have "worker_ok m'" using s na by (rule step_worker_ok)
  ultimately show ?thesis by (simp add: manager_ok_def f(7))
qed

lemma queue_okD:
  assumes "queue_ok cur m"
  shows "processingQueue m \<longleftrightarrow> cur \<noteq> None" "distinct (activationQueue m)"
    "cur = None \<Longrightarrow> activationQueue m = []"
    "pendingActivations m G \<noteq> None \<longleftrightarrow> (G \<in> set (activationQueue m) \<or> cur = Some G)"
    "cur = Some G \<Longrightarrow> G \<notin> set (activationQueue m)"
  using assms unfolding queue_ok_def by simp_all

lemma handles_okD:
  assumes "handles_ok m"
  shows "pendingActivations m G = Some hs \<Longrightarrow> h \<in> set hs \<Longrightarrow> settled m h = None"
    "pendingActivations m G = Some hs \<Longrightarrow> h \<in> set hs \<Longrightarrow> h < next_handle m"
    "pendingActivations m G = Some hs \<Longrightarrow> pendingActivations m G' = Some hs' \<Longrightarrow>
       h \<in> set hs \<Longrightarrow> h \<in> set hs' \<Longrightarrow> G = G'"
    "next_handle m \<le> h \<Longrightarrow> settled m h = None"
  using assms unfolding handles_ok_def by metis+

lemma active_okD:
  "active_ok cur m \<Longrightarrow> pendingActivations m G \<noteq> None \<Longrightarrow> is_active m G \<Longrightarrow> cur = Some G"
  unfolding active_ok_def by simp

lemma add_pending_fields [simp]:
  "next_handle (add_pending d m) = Suc (next_handle m)"
  "pendingActivations (add_pending d m) =
     (pendingActivations m)(d \<mapsto>
          (case pendingActivations m d of None \<Rightarrow> [] | Some hs \<Rightarrow> hs) @ [next_handle m])"
  "activationQueue (add_pending d m) =
     (if pendingActivations m d = None then activationQueue m @ [d] else activationQueue m)"
  "processingQueue (add_pending d m) = processingQueue m"
  "worker (add_pending d m) = worker m" "settled (add_pending d m) = settled m"
  "activeFeatures (add_pending d m) = activeFeatures m" "trace (add_pending d m) = trace m"
  "featureRegistry (add_pending d m) = featureRegistry m"
  "is_active (add_pending d m) = is_active m"
  by (simp_all add: add_pending_def is_active_def fun_eq_iff)

lemma add_pending_handles:
  assumes "handles_ok m"
  shows "handles_ok (add_pending d m)"
proof -
  have fresh: "\<And>X xs. pendingActivations m X = Some xs \<Longrightarrow> next_handle m \<notin> set xs"
    using handles_okD(2)[OF assms] by fastforce
  have old: "\<exists>hs0. pendingActivations m G = Some hs0 \<and> h \<in> set hs0"
    if "pendingActivations (add_pending d m) G = Some hs" "h \<in> set hs" "h \<noteq> next_handle m"
    for G hs h
    using that by (auto split: if_splits option.splits)
  have 1: "settled (add_pending d m) h = None \<and> h < next_handle (add_pending d m)"
    if p: "pendingActivations (add_pending d m) G = Some hs" "h \<in> set hs" for G hs h
  proof (cases "h = next_handle m")
    case True
    with handles_okD(4)[OF assms, of h] show ?thesis by simp
  next
    case False
    from old[OF p False] obtain hs0 where "pendingActivations m G = Some hs0" "h \<in> set hs0"
      by blast
    with handles_okD(1,2)[OF assms this] show ?thesis by simp
  qed
  have 2: "G = G'"
    if p: "pendingActivations (add_pending d m) G = Some hs" "h \<in> set hs"
      and p': "pendingActivations (add_pending d m) G' = Some hs'" "h \<in> set hs'"
    for G G' hs hs' h
  proof (cases "h = next_handle m")
    case True
    with p p' fresh show ?thesis by (auto split: if_splits option.splits)
  next
    case False
    from old[OF p False] old[OF p' False] handles_okD(3)[OF assms] show ?thesis by blast
  qed
  have 3: "settled (add_pending d m) h = None" if "next_handle (add_pending d m) \<le> h" for h
    using that handles_okD(4)[OF assms, of h] by simp
  show ?thesis unfolding handles_ok_def using 1 2 3 by blast
qed

lemma add_pending_queue:
  assumes "queue_ok cur m" "cur \<noteq> None"
  shows "queue_ok cur (add_pending d m)"
proof -
  note q = queue_okD[OF assms(1)]
  show ?thesis
    unfolding queue_ok_def
  proof (intro conjI allI impI)
    show "processingQueue (add_pending d m) = (cur \<noteq> None)" using q(1) by simp
    show "distinct (activationQueue (add_pending d m))" using q(2) q(4)[of d] by auto
    show "cur = None \<Longrightarrow> activationQueue (add_pending d m) = []" using assms(2) by simp
    show "(pendingActivations (add_pending d m) G \<noteq> None) =
         (G \<in> set (activationQueue (add_pending d m)) \<or> cur = Some G)" for G
      using q(4)[of G] q(4)[of d] by auto
    show "cur = Some G \<Longrightarrow> G \<notin> set (activationQueue (add_pending d m))" for G
      using q(5)[of G] q(4)[of d] by auto
  qed
qed

lemma add_pending_active:
  assumes "active_ok cur m" "\<not> is_active m d"
  shows "active_ok cur (add_pending d m)"
  unfolding active_ok_def
proof (intro allI impI)
  fix G assume "pendingActivations (add_pending d m) G \<noteq> None" "is_active (add_pending d m) G"
  with assms(2) have "pendingActivations m G \<noteq> None" "is_active m G"
    by (auto split: if_splits)
  with assms(1) show "cur = Some G" by (rule active_okD)
qed

lemma block_eq:
  "dependency_block G def m m' \<longleftrightarrow>
     (\<exists>d rest. featureRegistry m d \<noteq> None \<and> \<not> is_active m d \<and>
        m' = (add_pending d m)\<lparr>worker := Activating G def (AwaitDependency d rest (next_handle m))\<rparr>)"
  unfolding dependency_block_def add_pending_def by simp

lemma ok_after_block:
  assumes q: "queue_ok (Some G) m" and h: "handles_ok m" and a: "active_ok (Some G) m"
    and na: "\<not> is_active m G" and s: "dependency_block G def m m'"
  shows "manager_ok m'"
proof -
  from s obtain d rest where d: "\<not> is_active m d"
    and m': "m' = (add_pending d m)\<lparr>worker := Activating G def (AwaitDependency d rest (next_handle m))\<rparr>"
    unfolding block_eq by auto
  have "queue_ok (Some G) m'"
    by (rule queue_ok_frame[OF add_pending_queue[OF q, of d]]) (simp_all add: m')
  moreover have "handles_ok m'"
    by (rule handles_ok_frame[OF add_pending_handles[OF h, of d]]) (simp_all add: m')
  moreover have "active_ok (Some G) m'"
    using add_pending_active[OF a d] unfolding active_ok_def by (simp add: m' is_active_def)
  moreover have "worker_ok m'"
    using na by (simp add: worker_ok_def m' is_active_def)
  ultimately show ?thesis by (simp add: manager_ok_def m')
qed

lemma ok_start:
  assumes q: "queue_ok (Some G) m" and h: "handles_ok m" and a: "active_ok (Some G) m"
    and na: "\<not> is_active m G"
  shows "manager_ok (start_activation G m)"
proof (cases "featureRegistry m G")
  case None
  then have "start_activation G m = finish_activation G (Inl (UndefinedRead G)) m"
    by (simp add: start_activation_def)
  with ok_after_step[OF q h a na step_finish[of G undefined m "UndefinedRead G"]]
  show ?thesis by simp
next
  case (Some d)
  then have "start_activation G m = activate_dependencies G d (fd_dependencies d) m"
    by (simp add: start_activation_def)
  with step_dependencies[of G d m "fd_dependencies d"]
    ok_after_step[OF q h a na] ok_after_block[OF q h a na]
  show ?thesis by auto
qed

lemma ok_process_loop:
  assumes "processingQueue m" "distinct q" "\<forall>G. pendingActivations m G \<noteq> None \<longleftrightarrow> G \<in> set q"
    and "handles_ok m" "\<forall>G. pendingActivations m G \<noteq> None \<longrightarrow> \<not> is_active m G"
  shows "manager_ok (process_loop q m)"
  using assms
proof (induction q arbitrary: m)
  case Nil
  have "handles_ok (m\<lparr>activationQueue := [], processingQueue := False, worker := Idle\<rparr>)"
    by (rule handles_ok_frame[OF Nil(4)]) simp_all
  with Nil(3) show ?case
    by (simp add: manager_ok_def queue_ok_def active_ok_def worker_ok_def)
next
  case (Cons G rest)
  let ?m0 = "m\<lparr>activationQueue := rest\<rparr>"
  from Cons.prems(3) have pG: "pendingActivations m G \<noteq> None" by simp
  have q: "queue_ok (Some G) ?m0"
    using Cons.prems(1,2,3) by (auto simp: queue_ok_def)
  have h: "handles_ok ?m0" by (rule handles_ok_frame[OF Cons.prems(4)]) simp_all
  have a: "active_ok (Some G) ?m0"
    using Cons.prems(5) by (simp add: active_ok_def is_active_def)
  have na: "\<not> is_active ?m0 G" using Cons.prems(5) pG by (simp add: is_active_def)
  from ok_start[OF q h a na] pG show ?case by auto
qed

lemma settle_all_eq:
  "settle_all hs out s h = (if h \<in> set hs \<and> s h = None then Some out else s h)"
  by (induction hs arbitrary: s) auto

lemma ok_settle:
  assumes w: "manager_ok m" and f: "worker m = Finished G r"
  shows "manager_ok (settle_pending G r m)"
proof -
  from w f have q: "queue_ok (Some G) m" and h: "handles_ok m" and a: "active_ok (Some G) m"
    by (simp_all add: manager_ok_def)
  from queue_okD(4)[OF q, of G] obtain hs where hs: "pendingActivations m G = Some hs" by auto
  let ?m1 = "m\<lparr>pendingActivations := (pendingActivations m)(G := None),
               settled := settle_all hs (outcome_of r) (settled m)\<rparr>"
  have 1: "processingQueue ?m1" using queue_okD(1)[OF q] by simp
  have 2: "distinct (activationQueue m)" using queue_okD(2)[OF q] .
  have 3: "\<forall>G'. pendingActivations ?m1 G' \<noteq> None \<longleftrightarrow> G' \<in> set (activationQueue m)"
    using queue_okD(4)[OF q] queue_okD(5)[OF q, of G] by auto
  have 4: "handles_ok ?m1"
    unfolding handles_ok_def
  proof (intro conjI allI impI)
    fix G' hs' h'
    assume p: "pendingActivations ?m1 G' = Some hs'" and i: "h' \<in> set hs'"
    then have g: "G' \<noteq> G" and p0: "pendingActivations m G' = Some hs'" by (auto split: if_splits)
    from handles_okD(3)[OF h p0 hs i] g have "h' \<notin> set hs" by auto
    with handles_okD(1)[OF h p0 i] show "settled ?m1 h' = None" by (simp add: settle_all_eq)
    from handles_okD(2)[OF h p0 i] show "h' < next_handle ?m1" by simp
  next
    fix G1 G2 a b x
    assume "pendingActivations ?m1 G1 = Some a" "pendingActivations ?m1 G2 = Some b"
      "x \<in> set a" "x \<in> set b"
    then have "pendingActivations m G1 = Some a" "pendingActivations m G2 = Some b"
      by (auto split: if_splits)
    with handles_okD(3)[OF h] \<open>x \<in> set a\<close> \<open>x \<in> set b\<close> show "G1 = G2" by blast
  next
    fix x assume "next_handle ?m1 \<le> x"
    then have n: "next_handle m \<le> x" by simp
    with handles_okD(2)[OF h hs] have "x \<notin> set hs" by fastforce
    with handles_okD(4)[OF h n] show "settled ?m1 x = None" by (simp add: settle_all_eq)
  qed
  have 5: "\<forall>G'. pendingActivations ?m1 G' \<noteq> None \<longrightarrow> \<not> is_active ?m1 G'"
  proof (intro allI impI notI)
    fix G' assume p: "pendingActivations ?m1 G' \<noteq> None" and i: "is_active ?m1 G'"
    from p have g: "G' \<noteq> G" and p0: "pendingActivations m G' \<noteq> None" by (auto split: if_splits)
    from i have "is_active m G'" by (simp add: is_active_def)
    from active_okD[OF a p0 this] g show False by simp
  qed
  from ok_process_loop[OF 1 2 3 4 5] hs show ?thesis
    by (simp add: settle_pending_def)
qed

lemma ok_resume:
  assumes w: "manager_ok m"
  shows "manager_ok (resume a m)"
proof (cases "worker m")
  case Idle
  with w show ?thesis by (simp add: resume_def)
next
  case (Activating G d pt)
  with w have q: "queue_ok (Some G) m" and h: "handles_ok m" and ao: "active_ok (Some G) m"
    and wo: "worker_ok m"
    by (simp_all add: manager_ok_def)
  from wo Activating have na: "\<not> is_active m G" by (simp add: worker_ok_def)
  show ?thesis
  proof (cases "\<exists>dep rest x. pt = AwaitDependency dep rest x")
    case True
    then obtain dep rest x where pt: "pt = AwaitDependency dep rest x" by blast
    with wo Activating obtain hs where "pendingActivations m dep = Some hs" "x \<in> set hs"
      unfolding worker_ok_def by blast
    from handles_okD(1)[OF h this] have "settled m x = None" .
    then have "resume_activation G d pt a m = m" by (cases a) (simp_all add: pt)
    with w Activating show ?thesis by (simp add: resume_def)
  next
    case False
    then have "resume_activation G d pt a m = m \<or>
               activation_step G d m (resume_activation G d pt a m)"
      by (intro step_resume) auto
    with w ok_after_step[OF q h ao na] Activating show ?thesis
      by (auto simp: resume_def)
  qed
next
  case (Finished G r)
  with w ok_settle[OF w Finished] show ?thesis by (simp add: resume_def)
qed

lemma activateFeature_eq:
  "activateFeature G m =
     (next_handle m,
      case featureRegistry m G of
        None \<Rightarrow> settle_now (Rejected (FeatureNotFound G)) m
      | Some _ \<Rightarrow>
          (case map_of (activeFeatures m) G of
             Some inst \<Rightarrow> settle_now (Resolved inst) m
           | None \<Rightarrow>
               if pendingActivations m G = None \<and> \<not> processingQueue m
               then processActivationQueue (add_pending G m)
               else add_pending G m))"
  by (cases m)
     (auto simp: activateFeature_def activateFeature_body_def Let_def settle_now_def add_pending_def
        processActivationQueue_def split: option.splits)

lemma ok_settle_now:
  assumes "manager_ok m"
  shows "manager_ok (settle_now out m)"
proof -
  from assms have q: "queue_ok (worker_feature (worker m)) m" and h: "handles_ok m"
    and a: "active_ok (worker_feature (worker m)) m" and w: "worker_ok m"
    by (simp_all add: manager_ok_def)
  have "queue_ok (worker_feature (worker m)) (settle_now out m)"
    by (rule queue_ok_frame[OF q]) (simp_all add: settle_now_def)
  moreover have "handles_ok (settle_now out m)"
  proof -
    have 1: "settled (settle_now out m) x = None \<and> x < next_handle (settle_now out m)"
      if "pendingActivations (settle_now out m) G = Some hs" "x \<in> set hs" for G hs x
    proof -
      from that have p: "pendingActivations m G = Some hs" by (simp add: settle_now_def)
      from handles_okD(1,2)[OF h p that(2)] show ?thesis by (simp add: settle_now_def)
    qed
    have 2: "G = G'" if "pendingActivations (settle_now out m) G = Some hs" "x \<in> set hs"
      "pendingActivations (settle_now out m) G' = Some hs'" "x \<in> set hs'" for G G' hs hs' x
      using that handles_okD(3)[OF h, of G hs G' hs' x] by (simp add: settle_now_def)
    have 3: "settled (settle_now out m) x = None" if "next_handle (settle_now out m) \<le> x" for x
      using that handles_okD(4)[OF h, of x] by (simp add: settle_now_def)
    show ?thesis unfolding handles_ok_def using 1 2 3 by blast
  qed
  moreover have "active_ok (worker_feature (worker m)) (settle_now out m)"
    using a by (simp add: active_ok_def settle_now_def is_active_def)
  moreover have "worker_ok (settle_now out m)"
    using w by (simp add: worker_ok_def settle_now_def is_active_def)
  ultimately show ?thesis by (simp add: manager_ok_def settle_now_def)
qed

lemma ok_add_pending:
  assumes "manager_ok m" "processingQueue m" "\<not> is_active m G"
  shows "manager_ok (add_pending G m)"
proof -
  from assms have q: "queue_ok (worker_feature (worker m)) m" and h: "handles_ok m"
    and a: "active_ok (worker_feature (worker m)) m" and w: "worker_ok m"
    by (simp_all add: manager_ok_def)
  from queue_okD(1)[OF q] assms(2) have c: "worker_feature (worker m) \<noteq> None" by simp
  have "worker_ok (add_pending G m)"
    unfolding worker_ok_def
  proof (intro conjI allI impI)
    fix X def d rest x
    assume "worker (add_pending G m) = Activating X def (AwaitDependency d rest x)"
    then have "worker m = Activating X def (AwaitDependency d rest x)" by simp
    with w obtain hs where "pendingActivations m d = Some hs" "x \<in> set hs"
      unfolding worker_ok_def by blast
    then show "\<exists>hs. pendingActivations (add_pending G m) d = Some hs \<and> x \<in> set hs"
      by auto
  qed (use w in \<open>simp_all add: worker_ok_def\<close>)
  with add_pending_queue[OF q c, of G] add_pending_handles[OF h, of G]
    add_pending_active[OF a assms(3)]
  show ?thesis by (simp add: manager_ok_def)
qed

lemma ok_idle:
  assumes "manager_ok m" "\<not> processingQueue m"
  shows "worker m = Idle" "activationQueue m = []" "pendingActivations m G = None"
proof -
  from assms have q: "queue_ok (worker_feature (worker m)) m" by (simp add: manager_ok_def)
  from queue_okD(1)[OF q] assms(2) have c: "worker_feature (worker m) = None" by simp
  then show "worker m = Idle" by (cases "worker m") simp_all
  from queue_okD(3)[OF q c] show e: "activationQueue m = []" .
  from queue_okD(4)[OF q, of G] c e show "pendingActivations m G = None" by simp
qed

lemma ok_idle_call:
  assumes "manager_ok m" "\<not> processingQueue m" "\<not> is_active m G"
  shows "manager_ok (processActivationQueue (add_pending G m))"
proof -
  from assms have h: "handles_ok m" by (simp add: manager_ok_def)
  note i = ok_idle[OF assms(1,2)]
  let ?m1 = "(add_pending G m)\<lparr>processingQueue := True\<rparr>"
  have e: "processActivationQueue (add_pending G m) = process_loop [G] ?m1"
    using assms(2) i by (simp add: processActivationQueue_def)
  have 4: "handles_ok ?m1"
    by (rule handles_ok_frame[OF add_pending_handles[OF h, of G]]) simp_all
  have "manager_ok (process_loop [G] ?m1)"
  proof (rule ok_process_loop[OF _ _ _ 4])
    show "\<forall>X. (pendingActivations ?m1 X \<noteq> None) = (X \<in> set [G])" using i(3) by simp
    show "\<forall>X. pendingActivations ?m1 X \<noteq> None \<longrightarrow> \<not> is_active ?m1 X"
      using i(3) assms(3) by (simp add: is_active_def)
  qed simp_all
  with e show ?thesis by simp
qed

lemma ok_call:
  assumes "manager_ok m"
  shows "manager_ok (snd (activateFeature G m))"
proof (cases "featureRegistry m G")
  case None
  with ok_settle_now[OF assms] show ?thesis by (simp add: activateFeature_eq)
next
  case (Some d)
  show ?thesis
  proof (cases "map_of (activeFeatures m) G")
    case (Some inst)
    with \<open>featureRegistry m G = Some d\<close> ok_settle_now[OF assms] show ?thesis
      by (simp add: activateFeature_eq)
  next
    case None
    then have na: "\<not> is_active m G" by (simp add: is_active_def)
    show ?thesis
    proof (cases "processingQueue m")
      case True
      with None \<open>featureRegistry m G = Some d\<close> ok_add_pending[OF assms True na] show ?thesis
        by (simp add: activateFeature_eq)
    next
      case False
      with None \<open>featureRegistry m G = Some d\<close> ok_idle(3)[OF assms False, of G]
        ok_idle_call[OF assms False na]
      show ?thesis by (simp add: activateFeature_eq)
    qed
  qed
qed

lemma ok_step: "manager_ok m \<Longrightarrow> manager_ok (manager_step ev m)"
  by (cases ev) (simp_all add: ok_call ok_resume)



lemma grows_refl: "grows m m"
  by (simp add: grows_def)

lemma grows_trans: "grows m m1 \<Longrightarrow> grows m1 m2 \<Longrightarrow> grows m m2"
  by (simp add: grows_def)

lemma grows_same:
  "pendingActivations m' = pendingActivations m \<Longrightarrow> settled m' = settled m \<Longrightarrow> grows m m'"
  by (simp add: grows_def tracked_def)

lemma grows_add_pending: "grows m (add_pending d m)"
  by (auto simp: grows_def tracked_def)

lemma grows_step: "activation_step G def m m' \<Longrightarrow> grows m m'"
  by (rule grows_same) (simp_all add: step_fields)

lemma grows_block:
  assumes "dependency_block G def m m'"
  shows "grows m m'"
proof -
  from assms obtain d rest where
    m': "m' = (add_pending d m)\<lparr>worker := Activating G def (AwaitDependency d rest (next_handle m))\<rparr>"
    unfolding block_eq by auto
  have "grows (add_pending d m) m'" by (rule grows_same) (simp_all add: m')
  from grows_trans[OF grows_add_pending this] show ?thesis .
qed

lemma grows_start: "grows m (start_activation G m)"
proof (cases "featureRegistry m G")
  case None
  then show ?thesis
    by (simp add: start_activation_def finish_activation_def grows_same)
next
  case (Some d)
  with step_dependencies[of G d m "fd_dependencies d"] show ?thesis
    by (auto simp: start_activation_def intro: grows_step grows_block)
qed

lemma grows_loop:
  "grows m (process_loop q m)"
proof (induction q arbitrary: m)
  case Nil
  show ?case by (simp add: grows_same)
next
  case (Cons G rest)
  have "grows m (m\<lparr>activationQueue := rest\<rparr>)" by (simp add: grows_same)
  from grows_trans[OF this grows_start] Cons show ?case by simp
qed

lemma grows_process: "grows m (processActivationQueue m)"
proof -
  have "grows m (m\<lparr>processingQueue := True\<rparr>)" by (simp add: grows_same)
  from grows_trans[OF this grows_loop] show ?thesis
    by (simp add: processActivationQueue_def grows_refl)
qed

lemma settled_before:
  assumes "manager_ok m" "settled m x = Some out"
  shows "x < next_handle m"
proof (rule ccontr)
  assume "\<not> x < next_handle m"
  then have "next_handle m \<le> x" by simp
  from assms(1) have "handles_ok m" by (simp add: manager_ok_def)
  from handles_okD(4)[OF this \<open>next_handle m \<le> x\<close>] assms(2) show False by simp
qed

lemma settled_mono_call:
  assumes "manager_ok m" "settled m x = Some out"
  shows "settled (snd (activateFeature G m)) x = Some out"
proof -
  from settled_before[OF assms] have ne: "x \<noteq> next_handle m" by simp
  have a: "settled (add_pending G m) x = Some out" using assms(2) by simp
  have b: "settled (processActivationQueue (add_pending G m)) x = Some out"
    using grows_process[of "add_pending G m"] a by (simp add: grows_def)
  show ?thesis using assms(2) ne a b
    by (simp add: activateFeature_eq settle_now_def split: option.splits)
qed

lemma settled_mono_resume:
  assumes "manager_ok m" "settled m x = Some out"
  shows "settled (resume a m) x = Some out"
proof (cases "worker m")
  case Idle
  with assms show ?thesis by (simp add: resume_def)
next
  case (Activating G d pt)
  show ?thesis
  proof (cases "\<exists>dep rest y. pt = AwaitDependency dep rest y")
    case True
    then obtain dep rest y where pt: "pt = AwaitDependency dep rest y" by blast
    from assms(1) Activating pt have "handles_ok m" "worker_ok m" by (simp_all add: manager_ok_def)
    with Activating pt obtain hs where "pendingActivations m dep = Some hs" "y \<in> set hs"
      unfolding worker_ok_def by blast
    from handles_okD(1)[OF \<open>handles_ok m\<close> this] have "settled m y = None" .
    then have "resume_activation G d pt a m = m" by (cases a) (simp_all add: pt)
    with assms Activating show ?thesis by (simp add: resume_def)
  next
    case False
    then have "resume_activation G d pt a m = m \<or>
               activation_step G d m (resume_activation G d pt a m)"
      by (intro step_resume) auto
    with assms(2) Activating show ?thesis
      by (auto simp: resume_def step_fields)
  qed
next
  case (Finished G r)
  show ?thesis
  proof (cases "a = Tick")
    case False
    with Finished assms show ?thesis by (simp add: resume_def)
  next
    case True
    show ?thesis
    proof (cases "pendingActivations m G")
      case None
      with True Finished assms show ?thesis by (simp add: resume_def settle_pending_def)
    next
      case (Some hs)
      let ?m1 = "m\<lparr>pendingActivations := (pendingActivations m)(G := None),
               settled := settle_all hs (outcome_of r) (settled m)\<rparr>"
      have "settled ?m1 x = Some out" using assms(2) by (simp add: settle_all_eq)
      with grows_loop[of ?m1 "activationQueue m"]
      have "settled (process_loop (activationQueue m) ?m1) x = Some out" by (simp add: grows_def)
      with True Finished Some show ?thesis by (simp add: resume_def settle_pending_def)
    qed
  qed
qed

lemma settled_mono_step:
  "manager_ok m \<Longrightarrow> settled m x = Some out \<Longrightarrow> settled (manager_step ev m) x = Some out"
  by (cases ev) (simp_all add: settled_mono_call settled_mono_resume)

lemma settled_mono_run:
  "manager_ok m \<Longrightarrow> settled m x = Some out \<Longrightarrow> settled (manager_run evs m) x = Some out"
  unfolding manager_run_def
  by (induction evs arbitrary: m) (simp_all add: settled_mono_step ok_step)










lemma in_queue_le: "in_queue F m \<le> 1"
  by (simp add: in_queue_def)
























lemma seg_step: "segment_step G def m m' \<Longrightarrow> activation_step G def m m'"
  unfolding segment_step_def activation_step_def by (elim disjE exE conjE; blast)
























lemma block_calls: "dependency_block G d m m' \<Longrightarrow> activate_calls F m' = activate_calls F m"
  unfolding block_eq by (elim exE conjE) (simp add: activate_calls_def)





















end
